theory Spec2Isabelle
  imports Main "HOL-Library.Word" "HOL-Library.Sublist"
begin

unbundle bit_operations_syntax

section \<open>Data model\<close>

text \<open>
  \<open>os.FileMode\<close> is a \<open>uint32\<close>: the nine low bits are the permission bits
  (owner, group, other), the high bits say what kind of file it is. Go strings are byte
  sequences and the code indexes them by byte, so a path is a \<open>string\<close>.
\<close>

type_synonym filemode = "32 word"

definition Read :: filemode where "Read = 4"
definition Write :: filemode where "Write = 2"
definition Execute :: filemode where "Execute = 1"

text \<open>The two kind bits of \<open>os.FileMode\<close> the code tests (\<open>1 << 31\<close> and \<open>1 << 27\<close>).\<close>

definition ModeDir :: filemode where "ModeDir = push_bit 31 1"
definition ModeSymlink :: filemode where "ModeSymlink = push_bit 27 1"

definition IsDir :: "filemode \<Rightarrow> bool" where
  "IsDir m = (m AND ModeDir \<noteq> 0)"

text \<open>What \<open>os.Lstat\<close> gives: the mode and the \<open>syscall.Stat_t\<close> owner fields (both \<open>uint32\<close>).\<close>

record FileInfo =
  Mode :: filemode
  StUid :: "32 word"
  StGid :: "32 word"

record PermissionError =
  File :: string
  FileMode :: filemode
  FileUid :: int
  FileGid :: int
  Uid :: int
  Gid :: "int list"
  WantMode :: filemode

text \<open>
  The errors \<open>access\<close> can return: a \<open>PermissionError\<close>, \<open>syscall.ENOTDIR\<close>, the
  too-many-links error, the error of \<open>checkPath\<close> on a path without a slash, and an error
  of a collaborator (\<open>os.Lstat\<close>, \<open>os.Readlink\<close>, \<open>filepath.Abs\<close>, the group lookup),
  passed on as it is.
\<close>

type_synonym errno = nat

datatype error =
    PermissionDenied PermissionError
  | ENOTDIR
  | TooManyLinks
  | NoSlash string
  | Underlying errno

section \<open>The filesystem as the code sees it\<close>

text \<open>
  The code reads the filesystem through \<open>os.Lstat\<close> and \<open>os.Readlink\<close> only, one call
  after the other, and the tree can change between two calls. The answer of a call is
  therefore a function of the calls made so far (the history) and of the path asked.
  A filesystem that does not change ignores the history.
\<close>

datatype syscall = Lstat string | Readlink string

type_synonym history = "syscall list"

record env =
  lstat :: "history \<Rightarrow> string \<Rightarrow> errno + FileInfo"
  readlink :: "history \<Rightarrow> string \<Rightarrow> errno + string"
  Abs :: "string \<Rightarrow> errno + string"

definition os_Lstat :: "env \<Rightarrow> history \<Rightarrow> string \<Rightarrow> (errno + FileInfo) \<times> history" where
  "os_Lstat E h p = (lstat E h p, h @ [Lstat p])"

definition os_Readlink :: "env \<Rightarrow> history \<Rightarrow> string \<Rightarrow> (errno + string) \<times> history" where
  "os_Readlink E h p = (readlink E h p, h @ [Readlink p])"

text \<open>
  \<open>filepath.Abs\<close> is a collaborator too: the code walks whatever path it returns.
  \<open>static_env F L\<close> is a filesystem that does not change, where \<open>filepath.Abs\<close> gives
  back the path it is asked (as it does on a path that is absolute and clean already).
\<close>

definition static_env :: "(string \<Rightarrow> errno + FileInfo) \<Rightarrow> (string \<Rightarrow> errno + string) \<Rightarrow> env" where
  "static_env F L = \<lparr>lstat = (\<lambda>h. F), readlink = (\<lambda>h. L), Abs = Inr\<rparr>"

section \<open>The permission check of one path and its ancestors\<close>

definition IsPathSeparator :: "char \<Rightarrow> bool" where
  "IsPathSeparator c = (c = CHR ''/'')"

primrec contains :: "int list \<Rightarrow> int \<Rightarrow> bool" where
  "contains [] i = False"
| "contains (e # a) i = (if e = i then True else contains a i)"

text \<open>
  The backward scans of the code, \<open>for r = len(s) - 1; r >= lo; r-- { if sep(s[r]) break }\<close>:
  \<open>rscan lo s k\<close> looks at the indices below \<open>k\<close>, downwards, and gives the first
  separator at an index at least \<open>lo\<close>, or \<open>None\<close> where the loop ends with \<open>r < lo\<close>.
  \<open>strings.LastIndexFunc\<close> with the separator test is the scan with \<open>lo = 0\<close> (a byte
  \<open>/\<close> is never part of a longer UTF-8 sequence, so the rune index is the byte index).
\<close>

fun rscan :: "nat \<Rightarrow> string \<Rightarrow> nat \<Rightarrow> nat option" where
  "rscan lo s 0 = None"
| "rscan lo s (Suc r) =
     (if Suc r \<le> lo then None
      else if IsPathSeparator (s ! r) then Some r
      else rscan lo s r)"

definition LastIndexSep :: "string \<Rightarrow> nat option" where
  "LastIndexSep s = rscan 0 s (length s)"

text \<open>The condition of line 124, under which \<open>checkPath\<close> returns a \<open>PermissionError\<close>.\<close>

definition denied :: "int \<Rightarrow> int list \<Rightarrow> filemode \<Rightarrow> FileInfo \<Rightarrow> bool" where
  "denied uid gid mode fi =
     (uid \<noteq> 0
      \<and> Mode fi AND mode \<noteq> mode
      \<and> (Mode fi AND push_bit 6 mode \<noteq> push_bit 6 mode \<or> (word_of_int uid :: 32 word) \<noteq> StUid fi)
      \<and> (Mode fi AND push_bit 3 mode \<noteq> push_bit 3 mode \<or> \<not> contains gid (uint (StGid fi))))"

definition mkPermissionError ::
  "string \<Rightarrow> FileInfo \<Rightarrow> int \<Rightarrow> int list \<Rightarrow> filemode \<Rightarrow> PermissionError" where
  "mkPermissionError path fi uid gid mode =
     \<lparr>File = path, FileMode = Mode fi, FileUid = uint (StUid fi), FileGid = uint (StGid fi),
      Uid = uid, Gid = gid, WantMode = mode\<rparr>"

lemma rscan_less: "rscan lo s k = Some r \<Longrightarrow> r < k"
  by (induction k) (auto split: if_splits)

lemma LastIndexSep_less: "LastIndexSep p = Some i \<Longrightarrow> i < length p"
  by (simp add: LastIndexSep_def rscan_less)

function checkPath ::
  "env \<Rightarrow> history \<Rightarrow> int \<Rightarrow> int list \<Rightarrow> filemode \<Rightarrow> string \<Rightarrow> (error + unit) \<times> history" where
  "checkPath E h uid gid mode path =
     (if length path > 0 then
        (case os_Lstat E h path of
           (Inl e, h') \<Rightarrow> (Inl (Underlying e), h')
         | (Inr fi, h') \<Rightarrow>
             if denied uid gid mode fi
             then (Inl (PermissionDenied (mkPermissionError path fi uid gid mode)), h')
             else (case LastIndexSep path of
                     None \<Rightarrow> (Inl (NoSlash path), h')
                   | Some i \<Rightarrow> checkPath E h' uid gid 1 (take i path)))
      else (Inr (), h))"
  by pat_completeness auto
termination
  by (relation "measure (\<lambda>(E, h, uid, gid, mode, path). length path)")
     (auto dest: LastIndexSep_less)

section \<open>The walk\<close>

text \<open>The two forward scans of the loop body: over separators, then over a component.\<close>

function skip_sep :: "string \<Rightarrow> nat \<Rightarrow> nat" where
  "skip_sep path start =
     (if start < length path \<and> IsPathSeparator (path ! start)
      then skip_sep path (Suc start) else start)"
  by pat_completeness auto
termination
  by (relation "measure (\<lambda>(path, start). length path - start)") auto

function scan_comp :: "string \<Rightarrow> nat \<Rightarrow> nat" where
  "scan_comp path end =
     (if end < length path \<and> \<not> IsPathSeparator (path ! end)
      then scan_comp path (Suc end) else end)"
  by pat_completeness auto
termination
  by (relation "measure (\<lambda>(path, end). length path - end)") auto

text \<open>The Go slice \<open>s[i:j]\<close>, for \<open>i \<le> j \<le> len(s)\<close> (the code never slices out of range).\<close>

definition slice :: "string \<Rightarrow> nat \<Rightarrow> nat \<Rightarrow> string" where
  "slice s i j = take (j - i) (drop i s)"

text \<open>
  The state of the loop at its head, where \<open>start = end\<close>: the path being walked, the
  position in it, the resolved prefix, the number of links followed, and the calls made.
\<close>

record walk_state =
  wpath :: string
  wpos :: nat
  wdest :: string
  linksWalked :: nat
  whist :: history

text \<open>The branch for a \<open>..\<close> component (lines 192 to 217): the new \<open>dest\<close>.\<close>

definition dotdot_dest :: "nat \<Rightarrow> string \<Rightarrow> string" where
  "dotdot_dest volLen d =
     (let keep = (if length d > volLen then d @ ''/'' else d) @ ''..'' in
      case rscan volLen d (length d) of
        None \<Rightarrow> keep
      | Some r \<Rightarrow> if drop (r + 1) d = ''..'' then keep else take r d)"

text \<open>The branch for a link with a relative target (lines 268 to 282): the new \<open>dest\<close>.\<close>

definition link_parent :: "nat \<Rightarrow> string \<Rightarrow> string \<Rightarrow> string" where
  "link_parent volLen vol d =
     (case rscan volLen d (length d) of None \<Rightarrow> vol | Some r \<Rightarrow> take r d)"

datatype outcome = Continue walk_state | Break | Fail error history

text \<open>
  Found a symlink at \<open>d\<close> (lines 250 to 283). \<open>end\<close> is the end of the component in the
  path, \<open>h\<close> the calls made so far.
\<close>

definition follow_link :: "env \<Rightarrow> nat \<Rightarrow> string \<Rightarrow> walk_state \<Rightarrow> nat \<Rightarrow> string \<Rightarrow> history \<Rightarrow> outcome" where
  "follow_link E volLen vol s end d h =
     (let links = linksWalked s + 1 in
      if links > 255 then Fail TooManyLinks h
      else
        (case os_Readlink E h d of
           (Inl e, h') \<Rightarrow> Fail (Underlying e) h'
         | (Inr link, h') \<Rightarrow>
             let path' = link @ drop end (wpath s) in
             if length link > 0 \<and> IsPathSeparator (link ! 0)
             then Continue \<lparr>wpath = path', wpos = 1, wdest = take 1 link,
                            linksWalked = links, whist = h'\<rparr>
             else Continue \<lparr>wpath = path', wpos = 0, wdest = link_parent volLen vol d,
                            linksWalked = links, whist = h'\<rparr>))"

text \<open>Resolve the component appended (lines 236 to 248), then the link if it is one.\<close>

definition resolve :: "env \<Rightarrow> nat \<Rightarrow> string \<Rightarrow> walk_state \<Rightarrow> nat \<Rightarrow> string \<Rightarrow> history \<Rightarrow> outcome" where
  "resolve E volLen vol s end d h =
     (case os_Lstat E h d of
        (Inl e, h') \<Rightarrow> Fail (Underlying e) h'
      | (Inr fi, h') \<Rightarrow>
          if Mode fi AND ModeSymlink = 0 then
            (if \<not> IsDir (Mode fi) \<and> end < length (wpath s)
             then Fail ENOTDIR h'
             else Continue (s\<lparr>wpos := end, wdest := d, whist := h'\<rparr>))
          else follow_link E volLen vol s end d h')"

text \<open>
  An ordinary component \<open>elem\<close> (lines 220 to 234): it is added to \<open>dest\<close>, and
  \<open>checkPath\<close> runs on \<open>dest[:l]\<close> with mode 1 before the component is resolved.
\<close>

definition ordinary ::
  "env \<Rightarrow> int \<Rightarrow> int list \<Rightarrow> nat \<Rightarrow> string \<Rightarrow> walk_state \<Rightarrow> nat \<Rightarrow> string \<Rightarrow> outcome" where
  "ordinary E uid gi volLen vol s end elem =
     (let d0 = (if length (wdest s) > 0 \<and> \<not> IsPathSeparator (last (wdest s))
                then wdest s @ ''/'' else wdest s);
          l = length d0;
          d = d0 @ elem
      in case checkPath E (whist s) uid gi 1 (take l d) of
           (Inl e, h) \<Rightarrow> Fail e h
         | (Inr u, h) \<Rightarrow> resolve E volLen vol s end d h)"

text \<open>
  One run of the loop body (lines 178 to 283), from a state with \<open>start < len(path)\<close>:
  the loop goes on from a new state, or leaves at \<open>break\<close>, or the call returns an error.
\<close>

definition walk_step :: "env \<Rightarrow> int \<Rightarrow> int list \<Rightarrow> nat \<Rightarrow> string \<Rightarrow> walk_state \<Rightarrow> outcome" where
  "walk_step E uid gi volLen vol s =
     (let start = skip_sep (wpath s) (wpos s);
          end = scan_comp (wpath s) start;
          elem = slice (wpath s) start end
      in if end = start then Break
         else if elem = ''.'' then Continue (s\<lparr>wpos := end\<rparr>)
         else if elem = ''..'' then Continue (s\<lparr>wpos := end, wdest := dotdot_dest volLen (wdest s)\<rparr>)
         else ordinary E uid gi volLen vol s end elem)"

declare skip_sep.simps [simp del] scan_comp.simps [simp del]

lemma skip_sep_ge: "i \<le> skip_sep p i"
proof (induction p i rule: skip_sep.induct)
  case (1 p i)
  show ?case
    by (subst skip_sep.simps) (use 1 in \<open>auto dest: Suc_leD\<close>)
qed

lemma scan_comp_ge: "i \<le> scan_comp p i"
proof (induction p i rule: scan_comp.induct)
  case (1 p i)
  show ?case
    by (subst scan_comp.simps) (use 1 in \<open>auto dest: Suc_leD\<close>)
qed

text \<open>
  What decreases from one run of the body to the next: the links still allowed, then the
  part of the path not yet walked.
\<close>

definition walk_measure :: "(walk_state \<times> walk_state) set" where
  "walk_measure = inv_image (less_than <*lex*> less_than)
       (\<lambda>s. (256 - linksWalked s, length (wpath s) - wpos s))"

lemma follow_link_Continue:
  "follow_link E volLen vol s e d h = Continue s' \<Longrightarrow>
   linksWalked s' = linksWalked s + 1 \<and> linksWalked s' \<le> 255"
  unfolding follow_link_def Let_def
  by (cases "os_Readlink E h d"; cases "fst (os_Readlink E h d)")
     (auto split: if_splits)

lemma resolve_Continue:
  "resolve E volLen vol s e d h = Continue s' \<Longrightarrow>
   (linksWalked s' = linksWalked s \<and> wpath s' = wpath s \<and> wpos s' = e)
   \<or> (linksWalked s' = linksWalked s + 1 \<and> linksWalked s' \<le> 255)"
  unfolding resolve_def
  by (cases "os_Lstat E h d"; cases "fst (os_Lstat E h d)")
     (auto split: if_splits dest: follow_link_Continue)

lemma ordinary_Continue:
  "ordinary E uid gi volLen vol s e elem = Continue s' \<Longrightarrow>
   (linksWalked s' = linksWalked s \<and> wpath s' = wpath s \<and> wpos s' = e)
   \<or> (linksWalked s' = linksWalked s + 1 \<and> linksWalked s' \<le> 255)"
  unfolding ordinary_def Let_def
  by (auto split: prod.splits sum.splits dest: resolve_Continue)

lemma walk_step_Continue:
  assumes "walk_step E uid gi volLen vol s = Continue s'"
  shows "(linksWalked s' = linksWalked s \<and> wpath s' = wpath s
          \<and> wpos s' = scan_comp (wpath s) (skip_sep (wpath s) (wpos s))
          \<and> wpos s' \<noteq> skip_sep (wpath s) (wpos s))
         \<or> (linksWalked s' = linksWalked s + 1 \<and> linksWalked s' \<le> 255)"
  using assms unfolding walk_step_def Let_def
  by (auto split: if_splits dest: ordinary_Continue)

lemma walk_step_measure:
  assumes "wpos s < length (wpath s)" and "walk_step E uid gi volLen vol s = Continue s'"
  shows "(s', s) \<in> walk_measure"
proof -
  let ?start = "skip_sep (wpath s) (wpos s)"
  let ?end = "scan_comp (wpath s) ?start"
  have a: "wpos s \<le> ?start" by (rule skip_sep_ge)
  have b: "?start \<le> ?end" by (rule scan_comp_ge)
  have c: "?end \<noteq> ?start \<Longrightarrow> length (wpath s) - ?end < length (wpath s) - wpos s"
    using a b assms(1) by linarith
  from walk_step_Continue [OF assms(2)] c show ?thesis
    by (auto simp: walk_measure_def)
qed

lemma wf_walk_measure: "wf walk_measure"
  by (auto simp: walk_measure_def intro!: wf_inv_image wf_lex_prod)

text \<open>The loop (line 177) and the final check (line 287).\<close>

function walk_loop ::
  "env \<Rightarrow> int \<Rightarrow> int list \<Rightarrow> filemode \<Rightarrow> nat \<Rightarrow> string \<Rightarrow> walk_state \<Rightarrow> (error + unit) \<times> history" where
  "walk_loop E uid gi mode volLen vol s =
     (if wpos s < length (wpath s) then
        (case walk_step E uid gi volLen vol s of
           Continue s' \<Rightarrow> walk_loop E uid gi mode volLen vol s'
         | Break \<Rightarrow> checkPath E (whist s) uid gi mode (wdest s)
         | Fail e h \<Rightarrow> (Inl e, h))
      else checkPath E (whist s) uid gi mode (wdest s))"
  by pat_completeness auto
termination
  by (relation "inv_image walk_measure (\<lambda>(E, uid, gi, mode, volLen, vol, s). s)")
     (auto simp: wf_walk_measure walk_step_measure)

text \<open>
  \<open>access\<close> (lines 148 to 292). \<open>groups\<close> is what lines 149 to 159 compute from the
  user record: the group ids as integers, or the error of \<open>user.GroupIds\<close> or
  \<open>strconv.Atoi\<close>.
\<close>

definition access ::
  "env \<Rightarrow> errno + int list \<Rightarrow> int \<Rightarrow> filemode \<Rightarrow> string \<Rightarrow> (error + unit) \<times> history" where
  "access E groups uid mode p =
     (case groups of
        Inl e \<Rightarrow> (Inl (Underlying e), [])
      | Inr gi \<Rightarrow>
          (case Abs E p of
             Inl e \<Rightarrow> (Inl (Underlying e), [])
           | Inr path \<Rightarrow>
               let volLen = (if 0 < length path \<and> IsPathSeparator (path ! 0) then 1 else 0);
                   vol = take volLen path
               in walk_loop E uid gi mode volLen vol
                    \<lparr>wpath = path, wpos = volLen, wdest = vol, linksWalked = 0, whist = []\<rparr>))"

section \<open>The contract in the words of the specification\<close>

text \<open>
  The specification grants access when the owner bits include the requested mode and the
  principal is the owner, or the group bits (the mode shifted right by 3) include it and
  the file's group is one of the principal's, or the other bits include it.
\<close>

definition owner_bits :: "filemode \<Rightarrow> filemode" where "owner_bits m = drop_bit 6 m AND 7"
definition group_bits :: "filemode \<Rightarrow> filemode" where "group_bits m = drop_bit 3 m AND 7"
definition other_bits :: "filemode \<Rightarrow> filemode" where "other_bits m = m AND 7"
definition bits_include :: "filemode \<Rightarrow> filemode \<Rightarrow> bool" where
  "bits_include bits requested = (bits AND requested = requested)"

definition spec_granted :: "int \<Rightarrow> int list \<Rightarrow> filemode \<Rightarrow> FileInfo \<Rightarrow> bool" where
  "spec_granted uid gids mode fi =
     ((bits_include (owner_bits (Mode fi)) mode \<and> uid = uint (StUid fi))
      \<or> (bits_include (group_bits (Mode fi)) mode \<and> uint (StGid fi) \<in> set gids)
      \<or> bits_include (other_bits (Mode fi)) mode)"

section \<open>What a run asks of the filesystem\<close>

text \<open>
  The paths \<open>checkPath\<close> asks \<open>os.Lstat\<close> about when nothing stops it: the path,
  then what is left of it before its last separator, and so on (line 143).
\<close>

function checkPath_queries :: "string \<Rightarrow> string list" where
  "checkPath_queries p =
     (if length p > 0 then
        p # (case LastIndexSep p of None \<Rightarrow> [] | Some i \<Rightarrow> checkPath_queries (take i p))
      else [])"
  by pat_completeness auto
termination
  by (relation "measure length") (auto dest: LastIndexSep_less)

declare checkPath_queries.simps [simp del]

text \<open>
  In a filesystem that does not change: every path of the list is there and passes the
  test of line 124, the first with the mode asked and the others with mode 1.
\<close>

primrec all_granted :: "(string \<Rightarrow> errno + FileInfo) \<Rightarrow> int \<Rightarrow> int list \<Rightarrow> filemode \<Rightarrow> string list \<Rightarrow> bool" where
  "all_granted F uid gid mode [] = True"
| "all_granted F uid gid mode (q # qs) =
     (case F q of Inl e \<Rightarrow> False
      | Inr fi \<Rightarrow> \<not> denied uid gid mode fi \<and> all_granted F uid gid 1 qs)"

section \<open>Paths as lists of components\<close>

text \<open>
  How the two scans of the loop cut a path: runs of separators, components without a
  separator, and what follows a component (nothing, or a separator).
\<close>

definition is_seps :: "string \<Rightarrow> bool" where
  "is_seps xs = (\<forall>x\<in>set xs. IsPathSeparator x)"

definition no_sep :: "string \<Rightarrow> bool" where
  "no_sep c = (\<forall>x\<in>set c. \<not> IsPathSeparator x)"

definition at_boundary :: "string \<Rightarrow> bool" where
  "at_boundary rest = (rest = [] \<or> IsPathSeparator (hd rest))"

text \<open>\<open>dest\<close> as line 222 leaves it, ready for the next component.\<close>

definition with_sep :: "string \<Rightarrow> string" where
  "with_sep d = (if length d > 0 \<and> \<not> IsPathSeparator (last d) then d @ ''/'' else d)"

text \<open>
  An ordinary component is one the loop appends to \<open>dest\<close>: not empty, without a
  separator, neither \<open>.\<close> nor \<open>..\<close>. \<open>join_path cs\<close> is the absolute clean path with
  the components \<open>cs\<close>, the root for no component.
\<close>

definition ordinary_comp :: "string \<Rightarrow> bool" where
  "ordinary_comp c = (c \<noteq> [] \<and> no_sep c \<and> c \<noteq> ''.'' \<and> c \<noteq> ''..'')"

definition joined :: "string list \<Rightarrow> string" where
  "joined cs = concat (map ((@) ''/'') cs)"

definition join_path :: "string list \<Rightarrow> string" where
  "join_path cs = (if cs = [] then ''/'' else joined cs)"

text \<open>
  In a filesystem that does not change, the result of \<open>checkPath\<close> does not depend on
  the calls made before; \<open>check\<close> is that result.
\<close>

definition check :: "(string \<Rightarrow> errno + FileInfo) \<Rightarrow> int \<Rightarrow> int list \<Rightarrow> filemode \<Rightarrow> string \<Rightarrow> error + unit" where
  "check F uid gi mode p = fst (checkPath (static_env F (\<lambda>p. Inl 0)) [] uid gi mode p)"

text \<open>
  What the walk comes to on components none of which is a link, from the resolved prefix
  \<open>d\<close>: for each component the check of \<open>dest[:l]\<close> with mode 1, the \<open>os.Lstat\<close> of the
  component and the directory test, and at the end the check of the whole with the mode
  asked. \<open>no_links\<close> says that none of these components is a link.
\<close>

fun plain_walk ::
  "(string \<Rightarrow> errno + FileInfo) \<Rightarrow> int \<Rightarrow> int list \<Rightarrow> filemode \<Rightarrow> string \<Rightarrow> string list \<Rightarrow> error + unit" where
  "plain_walk F uid gi mode d [] = check F uid gi mode d"
| "plain_walk F uid gi mode d (c # cs) =
     (case check F uid gi 1 (with_sep d) of
        Inl e \<Rightarrow> Inl e
      | Inr u \<Rightarrow>
          (case F (with_sep d @ c) of
             Inl e \<Rightarrow> Inl (Underlying e)
           | Inr fi \<Rightarrow>
               if \<not> IsDir (Mode fi) \<and> cs \<noteq> [] then Inl ENOTDIR
               else plain_walk F uid gi mode (with_sep d @ c) cs))"

fun no_links :: "(string \<Rightarrow> errno + FileInfo) \<Rightarrow> string \<Rightarrow> string list \<Rightarrow> bool" where
  "no_links F d [] = True"
| "no_links F d (c # cs) =
     ((case F (with_sep d @ c) of Inl e \<Rightarrow> True | Inr fi \<Rightarrow> Mode fi AND ModeSymlink = 0)
      \<and> no_links F (with_sep d @ c) cs)"

text \<open>
  The shape of a state during the walk of components without links: \<open>a\<close> is what has
  been walked, then separators, then the components left.
\<close>

definition walking :: "walk_state \<Rightarrow> string list \<Rightarrow> bool" where
  "walking s cs =
     (\<exists>a xs. wpos s = length a \<and> is_seps xs
        \<and> wpath s = a @ xs @ (case cs of [] \<Rightarrow> [] | c # cs' \<Rightarrow> c @ joined cs'))"

text \<open>
  \<open>passes\<close>: the path is there and the test of line 124 lets the principal through.
  \<open>has_mode\<close>: the path is there and the principal has the mode by the owner, group and
  other rule of the specification. \<open>benign\<close>: success, a \<open>PermissionError\<close> or an error
  of \<open>os.Lstat\<close>.
\<close>

definition passes :: "(string \<Rightarrow> errno + FileInfo) \<Rightarrow> int \<Rightarrow> int list \<Rightarrow> filemode \<Rightarrow> string \<Rightarrow> bool" where
  "passes F uid gi m q = (case F q of Inl e \<Rightarrow> False | Inr fi \<Rightarrow> \<not> denied uid gi m fi)"

definition has_mode :: "(string \<Rightarrow> errno + FileInfo) \<Rightarrow> int \<Rightarrow> int list \<Rightarrow> filemode \<Rightarrow> string \<Rightarrow> bool" where
  "has_mode F uid gi m q = (case F q of Inl e \<Rightarrow> False | Inr fi \<Rightarrow> spec_granted uid gi m fi)"

definition benign :: "error + unit \<Rightarrow> bool" where
  "benign r = (r = Inr () \<or> (\<exists>pe. r = Inl (PermissionDenied pe)) \<or> (\<exists>e. r = Inl (Underlying e)))"

section \<open>The states a walk goes through\<close>

text \<open>
  \<open>volLen_of\<close> and \<open>initial\<close> are lines 168 to 176: the volume length and the state
  in which the loop starts on the path \<open>filepath.Abs\<close> returned. \<open>reaches\<close> relates a
  state of the loop to the states the loop gets to from it, and \<open>walks_to\<close> says that
  the walk of a path gets to a state.
\<close>

definition volLen_of :: "string \<Rightarrow> nat" where
  "volLen_of p = (if 0 < length p \<and> IsPathSeparator (p ! 0) then 1 else 0)"

definition initial :: "string \<Rightarrow> walk_state" where
  "initial p = \<lparr>wpath = p, wpos = volLen_of p, wdest = take (volLen_of p) p,
                 linksWalked = 0, whist = []\<rparr>"

inductive reaches :: "env \<Rightarrow> int \<Rightarrow> int list \<Rightarrow> nat \<Rightarrow> string \<Rightarrow> walk_state \<Rightarrow> walk_state \<Rightarrow> bool"
  for E uid gi volLen vol where
    reaches_refl: "reaches E uid gi volLen vol s s"
  | reaches_step: "reaches E uid gi volLen vol s t \<Longrightarrow> wpos t < length (wpath t) \<Longrightarrow>
                   walk_step E uid gi volLen vol t = Continue u \<Longrightarrow>
                   reaches E uid gi volLen vol s u"

definition walks_to :: "env \<Rightarrow> int \<Rightarrow> int list \<Rightarrow> string \<Rightarrow> walk_state \<Rightarrow> bool" where
  "walks_to E uid gi q s =
     reaches E uid gi (volLen_of q) (take (volLen_of q) q) (initial q) s"

text \<open>The loop run for at most \<open>n\<close> times round: \<open>None\<close> when that is not enough.\<close>

fun walk_iter ::
  "nat \<Rightarrow> env \<Rightarrow> int \<Rightarrow> int list \<Rightarrow> filemode \<Rightarrow> nat \<Rightarrow> string \<Rightarrow> walk_state
   \<Rightarrow> ((error + unit) \<times> history) option" where
  "walk_iter 0 E uid gi mode volLen vol s = None"
| "walk_iter (Suc n) E uid gi mode volLen vol s =
     (if wpos s < length (wpath s) then
        (case walk_step E uid gi volLen vol s of
           Continue s' \<Rightarrow> walk_iter n E uid gi mode volLen vol s'
         | Break \<Rightarrow> Some (checkPath E (whist s) uid gi mode (wdest s))
         | Fail e h \<Rightarrow> Some (Inl e, h))
      else Some (checkPath E (whist s) uid gi mode (wdest s)))"

text \<open>
  The resolved prefix of an absolute path during the walk: the root followed by
  components that are not empty and have no separator (\<open>..\<close> can be one of them).
\<close>

definition plain_comp :: "string \<Rightarrow> bool" where
  "plain_comp c = (c \<noteq> [] \<and> no_sep c)"

definition dest_ok :: "string \<Rightarrow> bool" where
  "dest_ok d = (\<exists>ds. d = join_path ds \<and> (\<forall>c\<in>set ds. plain_comp c))"

text \<open>
  The links followed show in the calls made: every link followed is one call to
  \<open>os.Readlink\<close>. \<open>budget\<close> is the number of such calls a walk can still reach.
\<close>

fun is_readlink :: "syscall \<Rightarrow> bool" where
  "is_readlink (Readlink p) = True"
| "is_readlink (Lstat p) = False"

definition readlinks :: "history \<Rightarrow> nat" where
  "readlinks h = length (filter is_readlink h)"

definition budget :: "walk_state \<Rightarrow> history \<Rightarrow> nat" where
  "budget s h = readlinks h + (255 - linksWalked s)"

section \<open>Filesystems to run the code on\<close>

text \<open>
  A filesystem given by two tables: what \<open>os.Lstat\<close> finds at a path (\<open>ENOENT\<close>, 2,
  where the table has nothing) and where each link points (\<open>EINVAL\<close>, 22, on anything
  else). Permissions are written in decimal: 493 is 0755, 448 is 0700, 420 is 0644,
  511 is 0777.
\<close>

definition fs_of :: "(string \<times> FileInfo) list \<Rightarrow> string \<Rightarrow> errno + FileInfo" where
  "fs_of tbl p = (case map_of tbl p of None \<Rightarrow> Inl 2 | Some fi \<Rightarrow> Inr fi)"

definition links_of :: "(string \<times> string) list \<Rightarrow> string \<Rightarrow> errno + string" where
  "links_of tbl p = (case map_of tbl p of None \<Rightarrow> Inl 22 | Some t \<Rightarrow> Inr t)"

definition a_dir :: "filemode \<Rightarrow> 32 word \<Rightarrow> 32 word \<Rightarrow> FileInfo" where
  "a_dir perm u g = \<lparr>Mode = ModeDir OR perm, StUid = u, StGid = g\<rparr>"
definition a_file :: "filemode \<Rightarrow> 32 word \<Rightarrow> 32 word \<Rightarrow> FileInfo" where
  "a_file perm u g = \<lparr>Mode = perm, StUid = u, StGid = g\<rparr>"
definition a_link :: "filemode \<Rightarrow> 32 word \<Rightarrow> 32 word \<Rightarrow> FileInfo" where
  "a_link perm u g = \<lparr>Mode = ModeSymlink OR perm, StUid = u, StGid = g\<rparr>"

text \<open>A home directory that only its owner (uid 1000) can enter.\<close>

definition fs_home :: "string \<Rightarrow> errno + FileInfo" where
  "fs_home = fs_of
     [(''/'', a_dir 493 0 0),
      (''/home'', a_dir 493 0 0),
      (''/home/'', a_dir 493 0 0),
      (''/home/ann'', a_dir 448 1000 1000),
      (''/home/ann/'', a_dir 448 1000 1000),
      (''/home/ann/notes'', a_file 416 1000 1000),
      (''/home/ann/pub'', a_file 420 1000 1000)]"

definition env_home :: env where
  "env_home = static_env fs_home (links_of [])"

text \<open>
  A filesystem with links: \<open>/var/run\<close> points to \<open>../run\<close>, \<open>/cur\<close> to \<open>data/v2\<close>,
  \<open>/old\<close> (a link with mode 0) to \<open>/data/v2\<close>, \<open>/tmp\<close> to \<open>data/tmp/../v2\<close> through
  a directory only uid 1001 can enter, and \<open>/lost\<close> to \<open>data/gone/../v2\<close> through a
  directory that is not there. \<open>/var/..\<close> is the root, as the kernel resolves it.
\<close>

definition fs_links :: "string \<Rightarrow> errno + FileInfo" where
  "fs_links = fs_of
     [(''/'', a_dir 493 0 0),
      (''/var'', a_dir 493 0 0),
      (''/var/'', a_dir 493 0 0),
      (''/var/run'', a_link 511 0 0),
      (''/var/..'', a_dir 493 0 0),
      (''/var/../'', a_dir 493 0 0),
      (''/var/../run'', a_dir 493 0 0),
      (''/run'', a_dir 493 0 0),
      (''/cur'', a_link 511 0 0),
      (''/old'', a_link 0 0 0),
      (''/tmp'', a_link 511 0 0),
      (''/lost'', a_link 511 0 0),
      (''/data'', a_dir 493 0 0),
      (''/data/'', a_dir 493 0 0),
      (''/data/v2'', a_file 420 1000 1000),
      (''/data/tmp'', a_dir 448 1001 1001)]"

definition targets :: "string \<Rightarrow> errno + string" where
  "targets = links_of
     [(''/var/run'', ''../run''),
      (''/cur'', ''data/v2''),
      (''/old'', ''/data/v2''),
      (''/tmp'', ''data/tmp/../v2''),
      (''/lost'', ''data/gone/../v2'')]"

definition env_links :: env where
  "env_links = static_env fs_links targets"

text \<open>
  A chain of \<open>n\<close> links in the root: \<open>/l\<close> points to \<open>ll\<close>, \<open>/ll\<close> to \<open>lll\<close>, and so
  on; the name with \<open>n + 1\<close> letters is a regular file that everybody can read.
\<close>

definition chain_name :: "nat \<Rightarrow> string" where
  "chain_name k = replicate k CHR ''l''"

definition chain_index :: "string \<Rightarrow> nat option" where
  "chain_index p =
     (case p of [] \<Rightarrow> None
      | x # t \<Rightarrow> if x = CHR ''/'' \<and> t \<noteq> [] \<and> t = chain_name (length t)
                 then Some (length t) else None)"

definition chain_fs :: "nat \<Rightarrow> string \<Rightarrow> errno + FileInfo" where
  "chain_fs n p =
     (if p = ''/'' then Inr (a_dir 493 0 0)
      else case chain_index p of
             None \<Rightarrow> Inl 2
           | Some k \<Rightarrow> if k \<le> n then Inr (a_link 511 0 0)
                       else if k = Suc n then Inr (a_file 420 0 0)
                       else Inl 2)"

definition chain_targets :: "nat \<Rightarrow> string \<Rightarrow> errno + string" where
  "chain_targets n p =
     (case chain_index p of
        None \<Rightarrow> Inl 22
      | Some k \<Rightarrow> if k \<le> n then Inr (chain_name (Suc k)) else Inl 22)"

definition chain_env :: "nat \<Rightarrow> env" where
  "chain_env n = static_env (chain_fs n) (chain_targets n)"

text \<open>A root directory that only uid 0 can enter.\<close>

definition fs_locked :: "string \<Rightarrow> errno + FileInfo" where
  "fs_locked = fs_of [(''/'', a_dir 448 0 0), (''/home'', a_dir 493 0 0)]"

definition env_locked :: env where
  "env_locked = static_env fs_locked (links_of [])"

section \<open>The permission test against the contract\<close>

lemma and_eq_iff_bits: "((a :: 32 word) AND b = b) = (\<forall>n. bit b n \<longrightarrow> bit a n)"
proof
  assume "a AND b = b"
  then show "\<forall>n. bit b n \<longrightarrow> bit a n" by (metis bit_and_iff)
next
  assume "\<forall>n. bit b n \<longrightarrow> bit a n"
  then show "a AND b = b" by (intro bit_eqI) (auto simp: bit_and_iff)
qed

lemma seven_mask: "(7 :: 32 word) = mask 3"
  by (simp add: mask_eq_exp_minus_1)

lemma le7_bits: "(w :: 32 word) \<le> 7 \<Longrightarrow> bit w n \<Longrightarrow> n < 3"
proof -
  assume a: "w \<le> 7" and b: "bit w n"
  from a have "uint w < 2 ^ 3" by (simp add: word_le_def)
  then have "w AND mask 3 = w" by (simp only: mask_eq_iff)
  then have "bit (w AND mask 3) n" using b by simp
  then show "n < 3" by (simp add: bit_and_iff bit_mask_iff)
qed

lemma other_ok:
  assumes "(w :: 32 word) \<le> 7"
  shows "((fm AND 7) AND w = w) = (fm AND w = w)"
  unfolding and_eq_iff_bits seven_mask
proof -
  have "\<And>n. bit w n \<Longrightarrow> n < 32 \<and> n < 3"
    using le7_bits [OF assms] by fastforce
  then show "(\<forall>n. bit w n \<longrightarrow> bit (fm AND mask 3) n) = (\<forall>n. bit w n \<longrightarrow> bit fm n)"
    by (auto simp: bit_and_iff bit_mask_iff)
qed

lemma shifted_ok:
  assumes "(w :: 32 word) \<le> 7" and "k \<le> 6"
  shows "((drop_bit k fm AND 7) AND w = w) = (fm AND push_bit k w = push_bit k w)"
proof -
  have "(\<forall>n. bit w n \<longrightarrow> bit fm (k + n)) = (\<forall>n. k \<le> n \<and> n < 32 \<and> bit w (n - k) \<longrightarrow> bit fm n)"
  proof (intro iffI allI impI)
    fix n assume h: "\<forall>n. bit w n \<longrightarrow> bit fm (k + n)" and "k \<le> n \<and> n < 32 \<and> bit w (n - k)"
    then show "bit fm n" by (metis le_add_diff_inverse)
  next
    fix n assume h: "\<forall>n. k \<le> n \<and> n < 32 \<and> bit w (n - k) \<longrightarrow> bit fm n" and b: "bit w n"
    from le7_bits [OF assms(1) b] assms(2) have "k + n < 32" by simp
    with h b show "bit fm (k + n)" by simp
  qed
  moreover have "\<And>n. bit w n \<Longrightarrow> n < 32 \<and> n < 3"
    using le7_bits [OF assms(1)] by fastforce
  then have "(\<forall>n. bit w n \<longrightarrow> bit fm (k + n) \<and> n < 32 \<and> n < 3) = (\<forall>n. bit w n \<longrightarrow> bit fm (k + n))"
    by blast
  ultimately show ?thesis
    unfolding and_eq_iff_bits seven_mask
    by (simp add: bit_and_iff bit_mask_iff bit_push_bit_iff bit_drop_bit_eq)
qed

lemma contains_set: "contains a i = (i \<in> set a)"
  by (induction a) auto

lemma uid_eq_iff:
  assumes "0 \<le> uid" "uid < 2 ^ 32"
  shows "((word_of_int uid :: 32 word) = w) = (uid = uint w)"
proof
  assume "(word_of_int uid :: 32 word) = w"
  then have "uint w = take_bit 32 uid" by (auto simp: uint_word_of_int_eq)
  also have "\<dots> = uid" using assms by (simp add: take_bit_int_eq_self)
  finally show "uid = uint w" by simp
next
  assume "uid = uint w" then show "(word_of_int uid :: 32 word) = w" by simp
qed

lemma denied_iff_spec:
  assumes "0 < uid" "uid < 2 ^ 32" "mode \<le> 7"
  shows "(\<not> denied uid gid mode fi) = spec_granted uid gid mode fi"
proof -
  have u: "((word_of_int uid :: 32 word) = StUid fi) = (uid = uint (StUid fi))"
    using assms by (intro uid_eq_iff) auto
  have o: "bits_include (owner_bits (Mode fi)) mode = (Mode fi AND push_bit 6 mode = push_bit 6 mode)"
    unfolding bits_include_def owner_bits_def using assms(3) by (intro shifted_ok) auto
  have g: "bits_include (group_bits (Mode fi)) mode = (Mode fi AND push_bit 3 mode = push_bit 3 mode)"
    unfolding bits_include_def group_bits_def using assms(3) by (intro shifted_ok) auto
  have a: "bits_include (other_bits (Mode fi)) mode = (Mode fi AND mode = mode)"
    unfolding bits_include_def other_bits_def using assms(3) by (rule other_ok)
  show ?thesis
    unfolding spec_granted_def o g a denied_def contains_set u
    using assms(1) by auto
qed

section \<open>What \<open>checkPath\<close> does\<close>

declare checkPath.simps [simp del]

lemma checkPath_Nil: "checkPath E h uid gid mode [] = (Inr (), h)"
  by (simp add: checkPath.simps)

lemma checkPath_Lstat_error:
  "path \<noteq> [] \<Longrightarrow> lstat E h path = Inl e \<Longrightarrow>
   checkPath E h uid gid mode path = (Inl (Underlying e), h @ [Lstat path])"
  by (simp add: checkPath.simps [of E h uid gid mode path] os_Lstat_def)

lemma checkPath_denied:
  "path \<noteq> [] \<Longrightarrow> lstat E h path = Inr fi \<Longrightarrow> denied uid gid mode fi \<Longrightarrow>
   checkPath E h uid gid mode path =
     (Inl (PermissionDenied (mkPermissionError path fi uid gid mode)), h @ [Lstat path])"
  by (simp add: checkPath.simps [of E h uid gid mode path] os_Lstat_def)

lemma checkPath_NoSlash:
  "path \<noteq> [] \<Longrightarrow> lstat E h path = Inr fi \<Longrightarrow> \<not> denied uid gid mode fi \<Longrightarrow>
   LastIndexSep path = None \<Longrightarrow>
   checkPath E h uid gid mode path = (Inl (NoSlash path), h @ [Lstat path])"
  by (simp add: checkPath.simps [of E h uid gid mode path] os_Lstat_def)

lemma checkPath_parent:
  "path \<noteq> [] \<Longrightarrow> lstat E h path = Inr fi \<Longrightarrow> \<not> denied uid gid mode fi \<Longrightarrow>
   LastIndexSep path = Some i \<Longrightarrow>
   checkPath E h uid gid mode path = checkPath E (h @ [Lstat path]) uid gid 1 (take i path)"
  by (simp add: checkPath.simps [of E h uid gid mode path] os_Lstat_def)

lemma checkPath_PermissionDenied:
  "checkPath E h uid gid mode path = (Inl (PermissionDenied pe), h') \<Longrightarrow>
   \<exists>fi hq. h' = hq @ [Lstat (File pe)] \<and> lstat E hq (File pe) = Inr fi
      \<and> pe = mkPermissionError (File pe) fi uid gid (WantMode pe)
      \<and> denied uid gid (WantMode pe) fi
      \<and> prefix (File pe) path \<and> File pe \<noteq> []
      \<and> (if File pe = path then WantMode pe = mode else WantMode pe = 1)"
proof (induction E h uid gid mode path rule: checkPath.induct)
  case (1 E h uid gid mode path)
  show ?case
  proof (cases "path = []")
    case True
    with 1(2) show ?thesis by (simp add: checkPath_Nil)
  next
    case ne: False
    show ?thesis
    proof (cases "lstat E h path")
      case (Inl e)
      with 1(2) ne show ?thesis by (simp add: checkPath_Lstat_error)
    next
      case (Inr fi)
      show ?thesis
      proof (cases "denied uid gid mode fi")
        case True
        with 1(2) ne Inr have "pe = mkPermissionError path fi uid gid mode" and "h' = h @ [Lstat path]"
          by (simp_all add: checkPath_denied)
        with True Inr ne show ?thesis
          by (auto simp: mkPermissionError_def)
      next
        case nd: False
        show ?thesis
        proof (cases "LastIndexSep path")
          case None
          with 1(2) ne Inr nd show ?thesis by (simp add: checkPath_NoSlash)
        next
          case (Some i)
          have step: "checkPath E (h @ [Lstat path]) uid gid 1 (take i path) = (Inl (PermissionDenied pe), h')"
            using 1(2) ne Inr nd Some by (simp add: checkPath_parent)
          have "os_Lstat E h path = (Inr fi, h @ [Lstat path])"
            using Inr by (simp add: os_Lstat_def)
          from 1(1) [OF _ this [symmetric] refl nd Some step] ne
          obtain fi' hq where ih: "h' = hq @ [Lstat (File pe)]" "lstat E hq (File pe) = Inr fi'"
            "pe = mkPermissionError (File pe) fi' uid gid (WantMode pe)"
            "denied uid gid (WantMode pe) fi'" "prefix (File pe) (take i path)" "File pe \<noteq> []"
            "WantMode pe = 1"
            by (auto split: if_splits)
          from ih(5) have "prefix (File pe) path"
            by (meson prefix_order.trans take_is_prefix)
          moreover from ih(5) LastIndexSep_less [OF Some] have "File pe \<noteq> path"
            by (auto dest!: prefix_length_le)
          ultimately show ?thesis using ih by auto
        qed
      qed
    qed
  qed
qed

lemma denied_root [simp]: "\<not> denied 0 gid mode fi"
  by (simp add: denied_def)

lemma checkPath_hist_prefix: "prefix h (snd (checkPath E h uid gid mode p))"
proof (induction E h uid gid mode p rule: checkPath.induct)
  case (1 E h uid gid mode p)
  show ?case
  proof (cases "p = []")
    case True then show ?thesis by (simp add: checkPath_Nil)
  next
    case ne: False
    show ?thesis
    proof (cases "lstat E h p")
      case (Inl e)
      with ne show ?thesis by (simp add: checkPath_Lstat_error)
    next
      case (Inr fi)
      then have os: "(Inr fi, h @ [Lstat p]) = os_Lstat E h p" by (simp add: os_Lstat_def)
      show ?thesis
      proof (cases "denied uid gid mode fi")
        case True
        with ne Inr show ?thesis by (simp add: checkPath_denied)
      next
        case nd: False
        show ?thesis
        proof (cases "LastIndexSep p")
          case None
          with ne Inr nd show ?thesis by (simp add: checkPath_NoSlash)
        next
          case (Some i)
          from 1 [OF _ os refl nd Some] ne
          have "prefix (h @ [Lstat p]) (snd (checkPath E (h @ [Lstat p]) uid gid 1 (take i p)))"
            by simp
          then have "prefix h (snd (checkPath E (h @ [Lstat p]) uid gid 1 (take i p)))"
            by (meson prefix_order.trans prefixI)
          with ne Inr nd Some show ?thesis by (simp add: checkPath_parent)
        qed
      qed
    qed
  qed
qed

lemma checkPath_root_not_denied:
  "fst (checkPath E h 0 gid mode p) \<noteq> Inl (PermissionDenied pe)"
proof
  assume a: "fst (checkPath E h 0 gid mode p) = Inl (PermissionDenied pe)"
  then obtain h' where "checkPath E h 0 gid mode p = (Inl (PermissionDenied pe), h')"
    by (cases "checkPath E h 0 gid mode p") auto
  from checkPath_PermissionDenied [OF this] show False by auto
qed

lemma checkPath_root_more:
  "prefix (snd (checkPath E h uid gid mode p)) (snd (checkPath E h 0 gid mode p))"
proof (induction E h uid gid mode p rule: checkPath.induct)
  case (1 E h uid gid mode p)
  show ?case
  proof (cases "p = []")
    case True then show ?thesis by (simp add: checkPath_Nil)
  next
    case ne: False
    show ?thesis
    proof (cases "lstat E h p")
      case (Inl e)
      with ne show ?thesis by (simp add: checkPath_Lstat_error)
    next
      case (Inr fi)
      then have os: "(Inr fi, h @ [Lstat p]) = os_Lstat E h p" by (simp add: os_Lstat_def)
      show ?thesis
      proof (cases "LastIndexSep p")
        case None
        with ne Inr show ?thesis
          by (cases "denied uid gid mode fi") (simp_all add: checkPath_denied checkPath_NoSlash)
      next
        case (Some i)
        have r: "checkPath E h 0 gid mode p = checkPath E (h @ [Lstat p]) 0 gid 1 (take i p)"
          using ne Inr Some by (simp add: checkPath_parent)
        show ?thesis
        proof (cases "denied uid gid mode fi")
          case True
          then show ?thesis using ne Inr r checkPath_hist_prefix [of "h @ [Lstat p]" E 0 gid 1 "take i p"]
            by (simp add: checkPath_denied)
        next
          case nd: False
          from 1 [OF _ os refl nd Some] ne show ?thesis
            using Inr nd Some r by (simp add: checkPath_parent)
        qed
      qed
    qed
  qed
qed

lemma checkPath_ok_history:
  "fst (checkPath E h uid gid mode p) = Inr () \<Longrightarrow>
   snd (checkPath E h uid gid mode p) = h @ map Lstat (checkPath_queries p)"
proof (induction E h uid gid mode p rule: checkPath.induct)
  case (1 E h uid gid mode p)
  show ?case
  proof (cases "p = []")
    case True then show ?thesis by (simp add: checkPath_Nil checkPath_queries.simps)
  next
    case ne: False
    show ?thesis
    proof (cases "lstat E h p")
      case (Inl e)
      with ne 1(2) show ?thesis by (simp add: checkPath_Lstat_error)
    next
      case (Inr fi)
      then have os: "(Inr fi, h @ [Lstat p]) = os_Lstat E h p" by (simp add: os_Lstat_def)
      show ?thesis
      proof (cases "denied uid gid mode fi")
        case True
        with ne Inr 1(2) show ?thesis by (simp add: checkPath_denied)
      next
        case nd: False
        show ?thesis
        proof (cases "LastIndexSep p")
          case None
          with ne Inr nd 1(2) show ?thesis by (simp add: checkPath_NoSlash)
        next
          case (Some i)
          have r: "checkPath E h uid gid mode p = checkPath E (h @ [Lstat p]) uid gid 1 (take i p)"
            using ne Inr nd Some by (simp add: checkPath_parent)
          from 1(1) [OF _ os refl nd Some] ne 1(2) r
          have "snd (checkPath E (h @ [Lstat p]) uid gid 1 (take i p))
                = (h @ [Lstat p]) @ map Lstat (checkPath_queries (take i p))" by simp
          then show ?thesis using r ne Some
            by (simp add: checkPath_queries.simps [of p])
        qed
      qed
    qed
  qed
qed

lemma lstat_static [simp]: "lstat (static_env F L) h p = F p"
  by (simp add: static_env_def)

lemma readlink_static [simp]: "readlink (static_env F L) h p = L p"
  by (simp add: static_env_def)

lemma Abs_static [simp]: "Abs (static_env F L) p = Inr p"
  by (simp add: static_env_def)

lemma rscan_Some:
  "rscan lo s k = Some r \<Longrightarrow>
   IsPathSeparator (s ! r) \<and> lo \<le> r \<and> r < k \<and> (\<forall>j. r < j \<and> j < k \<longrightarrow> \<not> IsPathSeparator (s ! j))"
proof (induction k)
  case 0 then show ?case by simp
next
  case (Suc k)
  show ?case
  proof (cases "IsPathSeparator (s ! k)")
    case True
    with Suc.prems show ?thesis by (auto split: if_splits)
  next
    case False
    with Suc.prems have "rscan lo s k = Some r" by (auto split: if_splits)
    from Suc.IH [OF this] False show ?thesis
      by (auto simp: less_Suc_eq)
  qed
qed

lemma rscan_None:
  "rscan lo s k = None \<Longrightarrow> lo \<le> j \<Longrightarrow> j < k \<Longrightarrow> \<not> IsPathSeparator (s ! j)"
proof (induction k)
  case 0 then show ?case by simp
next
  case (Suc k)
  from Suc.prems have nk: "\<not> IsPathSeparator (s ! k)" "rscan lo s k = None"
    by (auto split: if_splits)
  show ?case
  proof (cases "j = k")
    case True with nk show ?thesis by simp
  next
    case False
    with Suc.prems have "j < k" by simp
    from Suc.IH [OF nk(2) Suc.prems(2) this] show ?thesis .
  qed
qed

lemma LastIndexSep_None_hd: "p \<noteq> [] \<Longrightarrow> LastIndexSep p = None \<Longrightarrow> \<not> IsPathSeparator (hd p)"
  unfolding LastIndexSep_def using rscan_None [of 0 p "length p" 0]
  by (simp add: hd_conv_nth)

lemma checkPath_static_ok:
  "(fst (checkPath (static_env F L) h uid gid mode p) = Inr ())
   = (all_granted F uid gid mode (checkPath_queries p) \<and> (p = [] \<or> IsPathSeparator (hd p)))"
proof (induction "static_env F L" h uid gid mode p rule: checkPath.induct)
  case (1 h uid gid mode p)
  let ?E = "static_env F L"
  show ?case
  proof (cases "p = []")
    case True then show ?thesis by (simp add: checkPath_Nil checkPath_queries.simps)
  next
    case ne: False
    show ?thesis
    proof (cases "F p")
      case (Inl e)
      with ne show ?thesis by (simp add: checkPath_Lstat_error checkPath_queries.simps [of p])
    next
      case (Inr fi)
      then have os: "(Inr fi, h @ [Lstat p]) = os_Lstat ?E h p" by (simp add: os_Lstat_def)
      show ?thesis
      proof (cases "denied uid gid mode fi")
        case True
        with ne Inr show ?thesis by (simp add: checkPath_denied checkPath_queries.simps [of p])
      next
        case nd: False
        show ?thesis
        proof (cases "LastIndexSep p")
          case None
          with ne Inr nd LastIndexSep_None_hd [OF ne None] show ?thesis
            by (simp add: checkPath_NoSlash)
        next
          case (Some i)
          have r: "checkPath ?E h uid gid mode p = checkPath ?E (h @ [Lstat p]) uid gid 1 (take i p)"
            using ne Inr nd Some by (simp add: checkPath_parent)
          have ih: "(fst (checkPath ?E (h @ [Lstat p]) uid gid 1 (take i p)) = Inr ())
             = (all_granted F uid gid 1 (checkPath_queries (take i p))
                 \<and> (take i p = [] \<or> IsPathSeparator (hd (take i p))))"
            using 1 [OF _ os refl nd Some] ne by simp
          have q: "all_granted F uid gid mode (checkPath_queries p)
                   = all_granted F uid gid 1 (checkPath_queries (take i p))"
            using ne Some Inr nd by (simp add: checkPath_queries.simps [of p])
          show ?thesis
          proof (cases "i = 0")
            case True
            with Some have "rscan 0 p (length p) = Some 0" by (simp add: LastIndexSep_def)
            from rscan_Some [OF this] have "IsPathSeparator (hd p)"
              using ne by (simp add: hd_conv_nth)
            with ih q r True ne show ?thesis by simp
          next
            case False
            then have "hd (take i p) = hd p" "take i p \<noteq> []"
              using ne by (cases p; cases i; simp)+
            with ih q r ne show ?thesis by simp
          qed
        qed
      qed
    qed
  qed
qed

lemma all_granted_root:
  "all_granted F 0 gid mode qs = (\<forall>q\<in>set qs. \<exists>fi. F q = Inr fi)"
  by (induction qs arbitrary: mode) (auto split: sum.splits)

section \<open>What one run of the loop body does\<close>

lemma skip_sep_append:
  "is_seps xs \<Longrightarrow> rest = [] \<or> \<not> IsPathSeparator (hd rest) \<Longrightarrow>
   skip_sep (a @ xs @ rest) (length a) = length a + length xs"
proof (induction xs arbitrary: a)
  case Nil
  then show ?case
    by (subst skip_sep.simps) (auto simp: nth_append hd_conv_nth)
next
  case (Cons x xs)
  from Cons.prems have x: "IsPathSeparator x" and xs: "is_seps xs"
    by (auto simp: is_seps_def)
  have "skip_sep (a @ (x # xs) @ rest) (length a) = skip_sep (a @ (x # xs) @ rest) (Suc (length a))"
    by (subst skip_sep.simps) (simp add: x nth_append)
  also have "\<dots> = skip_sep ((a @ [x]) @ xs @ rest) (length (a @ [x]))" by simp
  also have "\<dots> = length (a @ [x]) + length xs"
    by (rule Cons.IH [OF xs Cons.prems(2)])
  finally show ?case by simp
qed

lemma scan_comp_append:
  "no_sep c \<Longrightarrow> at_boundary rest \<Longrightarrow>
   scan_comp (a @ c @ rest) (length a) = length a + length c"
proof (induction c arbitrary: a)
  case Nil
  then show ?case
    by (subst scan_comp.simps) (auto simp: nth_append hd_conv_nth at_boundary_def)
next
  case (Cons x xs)
  from Cons.prems have x: "\<not> IsPathSeparator x" and xs: "no_sep xs"
    by (auto simp: no_sep_def)
  have "scan_comp (a @ (x # xs) @ rest) (length a) = scan_comp (a @ (x # xs) @ rest) (Suc (length a))"
    by (subst scan_comp.simps) (simp add: x nth_append)
  also have "\<dots> = scan_comp ((a @ [x]) @ xs @ rest) (length (a @ [x]))" by simp
  also have "\<dots> = length (a @ [x]) + length xs"
    by (rule Cons.IH [OF xs Cons.prems(2)])
  finally show ?case by simp
qed

lemma slice_append: "slice (a @ c @ rest) (length a) (length a + length c) = c"
  by (simp add: slice_def)

text \<open>The next component of the path, as the two scans find it.\<close>

lemma next_component:
  assumes "wpath s = a @ xs @ c @ rest" and "wpos s = length a"
      and "is_seps xs" and "no_sep c" and "c \<noteq> []" and "at_boundary rest"
  shows "skip_sep (wpath s) (wpos s) = length a + length xs"
    and "scan_comp (wpath s) (length a + length xs) = length a + length xs + length c"
    and "slice (wpath s) (length a + length xs) (length a + length xs + length c) = c"
proof -
  have nh: "c @ rest = [] \<or> \<not> IsPathSeparator (hd (c @ rest))"
    using assms(4,5) by (cases c) (auto simp: no_sep_def)
  show "skip_sep (wpath s) (wpos s) = length a + length xs"
    using skip_sep_append [OF assms(3) nh, of a] assms(1,2) by simp
  show "scan_comp (wpath s) (length a + length xs) = length a + length xs + length c"
    using scan_comp_append [OF assms(4,6), of "a @ xs"] assms(1) by simp
  show "slice (wpath s) (length a + length xs) (length a + length xs + length c) = c"
    using slice_append [of "a @ xs" c rest] assms(1) by simp
qed

lemma walk_step_component:
  assumes "wpath s = a @ xs @ c @ rest" and "wpos s = length a"
      and "is_seps xs" and "no_sep c" and "c \<noteq> []" and "at_boundary rest"
  shows "walk_step E uid gi volLen vol s =
     (let e = length a + length xs + length c in
      if c = ''.'' then Continue (s\<lparr>wpos := e\<rparr>)
      else if c = ''..'' then Continue (s\<lparr>wpos := e, wdest := dotdot_dest volLen (wdest s)\<rparr>)
      else ordinary E uid gi volLen vol s e c)"
  unfolding walk_step_def next_component [OF assms] Let_def
  using assms(5) by simp

lemma walk_step_break:
  assumes "wpath s = a @ xs" and "wpos s = length a" and "is_seps xs"
  shows "walk_step E uid gi volLen vol s = Break"
proof -
  have 1: "skip_sep (wpath s) (wpos s) = length a + length xs"
    using skip_sep_append [OF assms(3), of "[]" a] assms(1,2) by simp
  have "scan_comp (wpath s) (length a + length xs) = length a + length xs"
    using assms(1) by (subst scan_comp.simps) simp
  with 1 show ?thesis by (simp add: walk_step_def)
qed

lemma ordinary_eq:
  "ordinary E uid gi volLen vol s e c =
     (case checkPath E (whist s) uid gi 1 (with_sep (wdest s)) of
        (Inl er, h) \<Rightarrow> Fail er h
      | (Inr u, h) \<Rightarrow> resolve E volLen vol s e (with_sep (wdest s) @ c) h)"
  unfolding ordinary_def with_sep_def [symmetric] Let_def by simp

declare walk_loop.simps [simp del]

lemma walk_loop_done:
  "\<not> wpos s < length (wpath s) \<Longrightarrow>
   walk_loop E uid gi mode volLen vol s = checkPath E (whist s) uid gi mode (wdest s)"
  by (simp add: walk_loop.simps [of E uid gi mode volLen vol s])

lemma walk_loop_Break:
  "walk_step E uid gi volLen vol s = Break \<Longrightarrow>
   walk_loop E uid gi mode volLen vol s = checkPath E (whist s) uid gi mode (wdest s)"
  by (simp add: walk_loop.simps [of E uid gi mode volLen vol s])

lemma walk_loop_Continue:
  "wpos s < length (wpath s) \<Longrightarrow> walk_step E uid gi volLen vol s = Continue s' \<Longrightarrow>
   walk_loop E uid gi mode volLen vol s = walk_loop E uid gi mode volLen vol s'"
  by (simp add: walk_loop.simps [of E uid gi mode volLen vol s])

lemma walk_loop_Fail:
  "wpos s < length (wpath s) \<Longrightarrow> walk_step E uid gi volLen vol s = Fail e h \<Longrightarrow>
   walk_loop E uid gi mode volLen vol s = (Inl e, h)"
  by (simp add: walk_loop.simps [of E uid gi mode volLen vol s])

lemma resolve_error:
  "lstat E h d = Inl e \<Longrightarrow>
   resolve E volLen vol s en d h = Fail (Underlying e) (h @ [Lstat d])"
  by (simp add: resolve_def os_Lstat_def)

lemma resolve_plain:
  "lstat E h d = Inr fi \<Longrightarrow> Mode fi AND ModeSymlink = 0 \<Longrightarrow>
   resolve E volLen vol s en d h =
     (if \<not> IsDir (Mode fi) \<and> en < length (wpath s) then Fail ENOTDIR (h @ [Lstat d])
      else Continue (s\<lparr>wpos := en, wdest := d, whist := h @ [Lstat d]\<rparr>))"
  by (simp add: resolve_def os_Lstat_def)

lemma resolve_link:
  "lstat E h d = Inr fi \<Longrightarrow> Mode fi AND ModeSymlink \<noteq> 0 \<Longrightarrow>
   resolve E volLen vol s en d h = follow_link E volLen vol s en d (h @ [Lstat d])"
  by (simp add: resolve_def os_Lstat_def)

lemma follow_link_too_many:
  "255 \<le> linksWalked s \<Longrightarrow> follow_link E volLen vol s en d h = Fail TooManyLinks h"
  by (simp add: follow_link_def)

lemma follow_link_error:
  "linksWalked s < 255 \<Longrightarrow> readlink E h d = Inl e \<Longrightarrow>
   follow_link E volLen vol s en d h = Fail (Underlying e) (h @ [Readlink d])"
  by (simp add: follow_link_def os_Readlink_def)

lemma follow_link_absolute:
  "linksWalked s < 255 \<Longrightarrow> readlink E h d = Inr link \<Longrightarrow>
   link \<noteq> [] \<Longrightarrow> IsPathSeparator (hd link) \<Longrightarrow>
   follow_link E volLen vol s en d h =
     Continue \<lparr>wpath = link @ drop en (wpath s), wpos = 1, wdest = take 1 link,
               linksWalked = linksWalked s + 1, whist = h @ [Readlink d]\<rparr>"
  by (cases link) (auto simp: follow_link_def os_Readlink_def Let_def)

lemma follow_link_relative:
  "linksWalked s < 255 \<Longrightarrow> readlink E h d = Inr link \<Longrightarrow>
   link = [] \<or> \<not> IsPathSeparator (hd link) \<Longrightarrow>
   follow_link E volLen vol s en d h =
     Continue \<lparr>wpath = link @ drop en (wpath s), wpos = 0, wdest = link_parent volLen vol d,
               linksWalked = linksWalked s + 1, whist = h @ [Readlink d]\<rparr>"
  by (cases link) (auto simp: follow_link_def os_Readlink_def Let_def)

lemma checkPath_static_fst:
  "fst (checkPath (static_env F L) h uid gid mode p) = fst (checkPath (static_env F L') h' uid gid mode p)"
proof (induction "static_env F L" h uid gid mode p arbitrary: h' rule: checkPath.induct)
  case (1 h uid gid mode p)
  let ?E = "static_env F L" and ?E' = "static_env F L'"
  show ?case
  proof (cases "p = []")
    case True then show ?thesis by (simp add: checkPath_Nil)
  next
    case ne: False
    show ?thesis
    proof (cases "F p")
      case (Inl e)
      with ne show ?thesis by (simp add: checkPath_Lstat_error)
    next
      case (Inr fi)
      then have os: "(Inr fi, h @ [Lstat p]) = os_Lstat ?E h p" by (simp add: os_Lstat_def)
      show ?thesis
      proof (cases "denied uid gid mode fi")
        case True
        with ne Inr show ?thesis by (simp add: checkPath_denied)
      next
        case nd: False
        show ?thesis
        proof (cases "LastIndexSep p")
          case None
          with ne Inr nd show ?thesis by (simp add: checkPath_NoSlash)
        next
          case (Some i)
          from 1 [OF _ os refl nd Some, of "h' @ [Lstat p]"] ne
          show ?thesis using ne Inr nd Some by (simp add: checkPath_parent)
        qed
      qed
    qed
  qed
qed

section \<open>The walk of components that are no links\<close>

lemma check_eq: "fst (checkPath (static_env F L) h uid gi mode p) = check F uid gi mode p"
  unfolding check_def by (rule checkPath_static_fst)

lemma joined_Cons: "joined (c # cs) = ''/'' @ c @ joined cs"
  by (simp add: joined_def)

lemma at_boundary_joined: "at_boundary (joined cs)"
  by (cases cs) (simp_all add: at_boundary_def joined_def IsPathSeparator_def)

lemma joined_eq_Nil: "(joined cs = []) = (cs = [])"
  by (cases cs) (simp_all add: joined_def)

lemma walkingI:
  "wpos s = length a \<Longrightarrow> is_seps xs \<Longrightarrow>
   wpath s = a @ xs @ (case cs of [] \<Rightarrow> [] | c # cs' \<Rightarrow> c @ joined cs') \<Longrightarrow> walking s cs"
  unfolding walking_def by blast

lemma walk_loop_plain:
  assumes "walking s cs" and "\<forall>c\<in>set cs. ordinary_comp c" and "no_links F (wdest s) cs"
  shows "fst (walk_loop (static_env F L) uid gi mode volLen vol s)
         = plain_walk F uid gi mode (wdest s) cs"
  using assms
proof (induction cs arbitrary: s)
  case Nil
  then obtain a xs where s: "wpos s = length a" "is_seps xs" "wpath s = a @ xs"
    by (auto simp: walking_def)
  have "walk_loop (static_env F L) uid gi mode volLen vol s
        = checkPath (static_env F L) (whist s) uid gi mode (wdest s)"
  proof (cases "wpos s < length (wpath s)")
    case True
    from walk_step_break [OF s(3,1,2)] show ?thesis by (rule walk_loop_Break)
  next
    case False
    then show ?thesis by (rule walk_loop_done)
  qed
  then show ?case by (simp add: check_eq)
next
  case (Cons c cs)
  let ?E = "static_env F L"
  from Cons.prems(1) obtain a xs where s: "wpos s = length a" "is_seps xs"
      "wpath s = a @ xs @ c @ joined cs"
    by (auto simp: walking_def)
  from Cons.prems(2) have c: "c \<noteq> []" "no_sep c" "c \<noteq> ''.''" "c \<noteq> ''..''"
    by (auto simp: ordinary_comp_def)
  let ?e = "length a + length xs + length c"
  let ?d = "with_sep (wdest s) @ c"
  have lt: "wpos s < length (wpath s)" using s c by (cases c) auto
  have step: "walk_step ?E uid gi volLen vol s = ordinary ?E uid gi volLen vol s ?e c"
    using walk_step_component [OF s(3,1,2) c(2,1) at_boundary_joined, of ?E uid gi volLen vol] c
    by (simp add: Let_def)
  have more: "(?e < length (wpath s)) = (cs \<noteq> [])"
    using s by (simp add: joined_eq_Nil)
  show ?case
  proof (cases "checkPath ?E (whist s) uid gi 1 (with_sep (wdest s))")
    case (Pair r h)
    then have chk: "check F uid gi 1 (with_sep (wdest s)) = r"
      using check_eq [of F L "whist s" uid gi 1 "with_sep (wdest s)"] by simp
    show ?thesis
    proof (cases r)
      case (Inl er)
      with Pair step have "walk_step ?E uid gi volLen vol s = Fail er h"
        by (simp add: ordinary_eq)
      from walk_loop_Fail [OF lt this] chk Inl show ?thesis by simp
    next
      case (Inr u)
      with Pair step have st: "walk_step ?E uid gi volLen vol s = resolve ?E volLen vol s ?e ?d h"
        by (simp add: ordinary_eq)
      show ?thesis
      proof (cases "F ?d")
        case (Inl e)
        then have "walk_step ?E uid gi volLen vol s = Fail (Underlying e) (h @ [Lstat ?d])"
          using st by (simp add: resolve_error)
        from walk_loop_Fail [OF lt this] chk Inr Inl show ?thesis by simp
      next
        case fi: (Inr fi)
        with Cons.prems(3) have nl: "Mode fi AND ModeSymlink = 0" "no_links F ?d cs"
          by simp_all
        show ?thesis
        proof (cases "\<not> IsDir (Mode fi) \<and> cs \<noteq> []")
          case True
          then have "walk_step ?E uid gi volLen vol s = Fail ENOTDIR (h @ [Lstat ?d])"
            using st fi nl(1) more by (simp add: resolve_plain)
          from walk_loop_Fail [OF lt this] chk Inr fi True show ?thesis by simp
        next
          case False
          let ?s' = "s\<lparr>wpos := ?e, wdest := ?d, whist := h @ [Lstat ?d]\<rparr>"
          have cont: "walk_step ?E uid gi volLen vol s = Continue ?s'"
            using st fi nl(1) more False by (simp add: resolve_plain)
          have w: "walking ?s' cs"
          proof (cases cs)
            case Nil
            with s show ?thesis
              by (intro walkingI [of _ "a @ xs @ c" "[]"]) (simp_all add: joined_def is_seps_def)
          next
            case (Cons c' cs')
            with s show ?thesis
              by (intro walkingI [of _ "a @ xs @ c" "''/''"])
                 (simp_all add: joined_Cons is_seps_def IsPathSeparator_def)
          qed
          have "fst (walk_loop ?E uid gi mode volLen vol ?s') = plain_walk F uid gi mode ?d cs"
            using Cons.IH [OF w] Cons.prems(2) nl(2) by simp
          moreover have "plain_walk F uid gi mode (wdest s) (c # cs) = plain_walk F uid gi mode ?d cs"
            using chk Inr fi False by auto
          ultimately show ?thesis using walk_loop_Continue [OF lt cont] by simp
        qed
      qed
    qed
  qed
qed

section \<open>Clean paths and what \<open>checkPath\<close> asks about them\<close>

lemma joined_Nil [simp]: "joined [] = []"
  by (simp add: joined_def)

lemma joined_snoc: "joined (ds @ [c]) = joined ds @ CHR ''/'' # c"
  by (simp add: joined_def)

lemma joined_single: "joined [c] = CHR ''/'' # c"
  by (simp add: joined_def)

lemma join_path_abs: "join_path ds \<noteq> [] \<and> IsPathSeparator (hd (join_path ds))"
  by (cases ds) (simp_all add: join_path_def joined_Cons IsPathSeparator_def)

lemma joined_last:
  assumes "\<forall>c\<in>set ds. ordinary_comp c" and "ds \<noteq> []"
  shows "joined ds \<noteq> [] \<and> \<not> IsPathSeparator (last (joined ds))"
proof -
  from assms(2) obtain ds' c where ds: "ds = ds' @ [c]" by (metis rev_exhaust)
  with assms(1) have c: "c \<noteq> []" "no_sep c" by (auto simp: ordinary_comp_def)
  then have "\<not> IsPathSeparator (last c)" by (auto simp: no_sep_def)
  with c ds show ?thesis by (simp add: joined_snoc)
qed

lemma with_sep_join:
  assumes "\<forall>c\<in>set ds. ordinary_comp c"
  shows "with_sep (join_path ds) = (if ds = [] then ''/'' else joined ds @ ''/'')"
proof (cases "ds = []")
  case True
  then show ?thesis by (simp add: with_sep_def join_path_def IsPathSeparator_def)
next
  case False
  with joined_last [OF assms False] show ?thesis
    by (simp add: with_sep_def join_path_def)
qed

lemma with_sep_join_snoc:
  assumes "\<forall>c\<in>set ds. ordinary_comp c"
  shows "with_sep (join_path ds) @ c = join_path (ds @ [c])"
  using with_sep_join [OF assms]
  by (cases "ds = []") (simp_all add: join_path_def joined_snoc joined_single)

lemma rscan_snoc:
  "no_sep c \<Longrightarrow> rscan 0 (x @ ''/'' @ c @ t) (Suc (length x + length c)) = Some (length x)"
proof (induction c arbitrary: t rule: rev_induct)
  case Nil
  show ?case by (simp add: nth_append IsPathSeparator_def)
next
  case (snoc y c)
  then have y: "\<not> IsPathSeparator y" and c: "no_sep c" by (auto simp: no_sep_def)
  have "(x @ ''/'' @ (c @ [y]) @ t) ! (Suc (length x + length c)) = y"
    by (simp add: nth_append)
  then have "rscan 0 (x @ ''/'' @ (c @ [y]) @ t) (Suc (length x + length (c @ [y])))
        = rscan 0 (x @ ''/'' @ (c @ [y]) @ t) (Suc (length x + length c))"
    using y by simp
  also have "\<dots> = Some (length x)"
    using snoc.IH [OF c, of "y # t"] by simp
  finally show ?case .
qed

lemma LastIndexSep_snoc: "no_sep c \<Longrightarrow> LastIndexSep (x @ CHR ''/'' # c) = Some (length x)"
  using rscan_snoc [of c x "[]"] by (simp add: LastIndexSep_def)

lemma queries_Nil [simp]: "checkPath_queries [] = []"
  by (simp add: checkPath_queries.simps)

lemma queries_snoc:
  "no_sep c \<Longrightarrow> checkPath_queries (x @ CHR ''/'' # c) = (x @ CHR ''/'' # c) # checkPath_queries x"
  by (subst checkPath_queries.simps) (simp add: LastIndexSep_snoc)

lemma queries_root: "checkPath_queries ''/'' = [''/'']"
  using queries_snoc [of "[]" "[]"] by (simp add: no_sep_def)

lemma queries_sep: "checkPath_queries (x @ ''/'') = (x @ ''/'') # checkPath_queries x"
  using queries_snoc [of "[]" x] by (simp add: no_sep_def)

lemma all_granted_joined:
  assumes "\<forall>c\<in>set ds. ordinary_comp c"
  shows "all_granted F uid gi 1 (checkPath_queries (joined ds))
         = (\<forall>k. 0 < k \<and> k \<le> length ds \<longrightarrow> passes F uid gi 1 (joined (take k ds)))"
  using assms
proof (induction ds rule: rev_induct)
  case Nil
  show ?case by simp
next
  case (snoc c ds)
  then have c: "no_sep c" and ds: "\<forall>c\<in>set ds. ordinary_comp c"
    by (auto simp: ordinary_comp_def)
  have "all_granted F uid gi 1 (checkPath_queries (joined (ds @ [c])))
        = (passes F uid gi 1 (joined (ds @ [c]))
           \<and> all_granted F uid gi 1 (checkPath_queries (joined ds)))"
    unfolding joined_snoc queries_snoc [OF c]
    by (simp add: passes_def split: sum.splits)
  also have "\<dots> = (passes F uid gi 1 (joined (ds @ [c]))
           \<and> (\<forall>k. 0 < k \<and> k \<le> length ds \<longrightarrow> passes F uid gi 1 (joined (take k ds))))"
    using snoc.IH [OF ds] by simp
  also have "\<dots> = (\<forall>k. 0 < k \<and> k \<le> length (ds @ [c]) \<longrightarrow> passes F uid gi 1 (joined (take k (ds @ [c]))))"
  proof (intro iffI allI impI conjI)
    fix k assume a: "passes F uid gi 1 (joined (ds @ [c]))
           \<and> (\<forall>k. 0 < k \<and> k \<le> length ds \<longrightarrow> passes F uid gi 1 (joined (take k ds)))"
       and k: "0 < k \<and> k \<le> length (ds @ [c])"
    show "passes F uid gi 1 (joined (take k (ds @ [c])))"
    proof (cases "k \<le> length ds")
      case True with a k show ?thesis by simp
    next
      case False with a k show ?thesis by simp
    qed
  next
    assume a: "\<forall>k. 0 < k \<and> k \<le> length (ds @ [c]) \<longrightarrow> passes F uid gi 1 (joined (take k (ds @ [c])))"
    from a [rule_format, of "length (ds @ [c])"] show "passes F uid gi 1 (joined (ds @ [c]))"
      by simp
  next
    fix k assume a: "\<forall>k. 0 < k \<and> k \<le> length (ds @ [c]) \<longrightarrow> passes F uid gi 1 (joined (take k (ds @ [c])))"
      and k: "0 < k \<and> k \<le> length ds"
    from a [rule_format, of k] k show "passes F uid gi 1 (joined (take k ds))" by simp
  qed
  finally show ?case .
qed

lemma check_ok:
  "(check F uid gi m p = Inr ())
   = (all_granted F uid gi m (checkPath_queries p) \<and> (p = [] \<or> IsPathSeparator (hd p)))"
  unfolding check_def by (rule checkPath_static_ok)

lemma check_ok_root: "(check F uid gi m ''/'' = Inr ()) = passes F uid gi m ''/''"
  by (simp add: check_ok queries_root passes_def IsPathSeparator_def split: sum.splits)

lemma check_ok_joined:
  assumes "\<forall>c\<in>set ds. ordinary_comp c" and "ds \<noteq> []"
  shows "(check F uid gi m (joined ds) = Inr ())
     = (passes F uid gi m (joined ds)
        \<and> (\<forall>k. 0 < k \<and> k < length ds \<longrightarrow> passes F uid gi 1 (joined (take k ds))))"
proof -
  from assms(2) obtain ds' c where ds: "ds = ds' @ [c]" by (metis rev_exhaust)
  with assms(1) have c: "no_sep c" and ds': "\<forall>c\<in>set ds'. ordinary_comp c"
    by (auto simp: ordinary_comp_def)
  have hd: "IsPathSeparator (hd (joined ds))"
    using join_path_abs [of ds] assms(2) by (simp add: join_path_def)
  have "(check F uid gi m (joined ds) = Inr ())
      = (passes F uid gi m (joined ds) \<and> all_granted F uid gi 1 (checkPath_queries (joined ds')))"
    unfolding check_ok using hd
    by (simp add: ds joined_snoc queries_snoc [OF c] passes_def split: sum.splits)
  also have "\<dots> = (passes F uid gi m (joined ds)
        \<and> (\<forall>k. 0 < k \<and> k \<le> length ds' \<longrightarrow> passes F uid gi 1 (joined (take k ds'))))"
    by (simp add: all_granted_joined [OF ds'])
  also have "\<dots> = (passes F uid gi m (joined ds)
        \<and> (\<forall>k. 0 < k \<and> k < length ds \<longrightarrow> passes F uid gi 1 (joined (take k ds))))"
    by (simp add: ds less_Suc_eq_le)
  finally show ?thesis .
qed

lemma check_ok_joined_sep:
  assumes "\<forall>c\<in>set ds. ordinary_comp c" and "ds \<noteq> []"
  shows "(check F uid gi 1 (joined ds @ ''/'') = Inr ())
     = (passes F uid gi 1 (joined ds @ ''/'')
        \<and> (\<forall>k. 0 < k \<and> k \<le> length ds \<longrightarrow> passes F uid gi 1 (joined (take k ds))))"
proof -
  have hd: "IsPathSeparator (hd (joined ds @ ''/''))"
    using join_path_abs [of ds] assms(2) by (simp add: join_path_def)
  show ?thesis
    unfolding check_ok using hd
    by (simp add: queries_sep all_granted_joined [OF assms(1)] passes_def split: sum.splits)
qed

lemma checkPath_abs_benign:
  "p \<noteq> [] \<Longrightarrow> IsPathSeparator (hd p) \<Longrightarrow> benign (fst (checkPath E h uid gid mode p))"
proof (induction E h uid gid mode p rule: checkPath.induct)
  case (1 E h uid gid mode p)
  note ne = \<open>p \<noteq> []\<close>
  show ?case
  proof (cases "lstat E h p")
    case (Inl e)
    with ne show ?thesis by (simp add: checkPath_Lstat_error benign_def)
  next
    case (Inr fi)
    then have os: "(Inr fi, h @ [Lstat p]) = os_Lstat E h p" by (simp add: os_Lstat_def)
    show ?thesis
    proof (cases "denied uid gid mode fi")
      case True
      with ne Inr show ?thesis by (simp add: checkPath_denied benign_def)
    next
      case nd: False
      show ?thesis
      proof (cases "LastIndexSep p")
        case None
        from LastIndexSep_None_hd [OF ne None] 1(3) show ?thesis by simp
      next
        case (Some i)
        have r: "checkPath E h uid gid mode p = checkPath E (h @ [Lstat p]) uid gid 1 (take i p)"
          using ne Inr nd Some by (simp add: checkPath_parent)
        show ?thesis
        proof (cases "i = 0")
          case True
          with r show ?thesis by (simp add: checkPath_Nil benign_def)
        next
          case False
          then have "take i p \<noteq> []" "hd (take i p) = hd p"
            using ne by (cases p; cases i; simp)+
          with 1(1) [OF _ os refl nd Some] ne 1(3) r show ?thesis by simp
        qed
      qed
    qed
  qed
qed

lemma check_abs_benign: "p \<noteq> [] \<Longrightarrow> IsPathSeparator (hd p) \<Longrightarrow> benign (check F uid gi m p)"
  unfolding check_def by (rule checkPath_abs_benign)

lemma with_sep_abs:
  "d \<noteq> [] \<Longrightarrow> IsPathSeparator (hd d) \<Longrightarrow> with_sep d \<noteq> [] \<and> IsPathSeparator (hd (with_sep d))"
  by (cases d) (auto simp: with_sep_def)

lemma plain_walk_Cons_ok:
  "(plain_walk F uid gi mode d (c # cs) = Inr ())
   = (check F uid gi 1 (with_sep d) = Inr ()
      \<and> (\<exists>fi. F (with_sep d @ c) = Inr fi \<and> (IsDir (Mode fi) \<or> cs = []))
      \<and> plain_walk F uid gi mode (with_sep d @ c) cs = Inr ())"
  by (auto split: sum.splits)

lemma passes_exists: "passes F uid gi m q \<Longrightarrow> \<exists>fi. F q = Inr fi"
  by (auto simp: passes_def split: sum.splits)

lemma passes_cong: "F q = F q' \<Longrightarrow> passes F uid gi m q = passes F uid gi m q'"
  by (simp add: passes_def)

lemma plain_walk_spec:
  assumes "\<forall>c\<in>set (ds @ cs). ordinary_comp c"
      and "\<forall>k. 0 < k \<and> k < length (ds @ cs) \<longrightarrow>
             F (joined (take k (ds @ cs)) @ ''/'') = F (joined (take k (ds @ cs)))"
      and "\<forall>k fi. length ds < k \<and> k < length (ds @ cs) \<and> F (joined (take k (ds @ cs))) = Inr fi
             \<longrightarrow> IsDir (Mode fi)"
  shows "(plain_walk F uid gi mode (join_path ds) cs = Inr ())
     = ((\<forall>k. 0 < k \<and> k < length (ds @ cs) \<longrightarrow> passes F uid gi 1 (joined (take k (ds @ cs))))
        \<and> passes F uid gi mode (join_path (ds @ cs))
        \<and> (ds = [] \<and> cs \<noteq> [] \<longrightarrow> passes F uid gi 1 ''/''))"
  using assms
proof (induction cs arbitrary: ds)
  case Nil
  then have o: "\<forall>c\<in>set ds. ordinary_comp c" by simp
  show ?case
  proof (cases "ds = []")
    case True
    then show ?thesis by (simp add: join_path_def check_ok_root)
  next
    case False
    then show ?thesis using check_ok_joined [OF o False, of F uid gi mode]
      by (simp add: join_path_def) blast
  qed
next
  case (Cons c cs)
  let ?ds' = "ds @ [c]"
  let ?all = "ds @ c # cs"
  let ?n = "length ?all"
  have eq: "?ds' @ cs = ?all" by simp
  from Cons.prems(1) have o: "\<forall>c\<in>set ds. ordinary_comp c" and o': "\<forall>c\<in>set (?ds' @ cs). ordinary_comp c"
    by auto
  have d': "with_sep (join_path ds) @ c = join_path ?ds'"
    by (rule with_sep_join_snoc [OF o])
  have jd': "join_path ?ds' = joined ?ds'" by (simp add: join_path_def)
  have pre: "joined ?ds' = joined (take (Suc (length ds)) ?all)" by simp
  have p3: "\<forall>k fi. length ?ds' < k \<and> k < length ?all \<and> F (joined (take k ?all)) = Inr fi
             \<longrightarrow> IsDir (Mode fi)"
  proof (intro allI impI)
    fix k fi assume a: "length ?ds' < k \<and> k < length ?all \<and> F (joined (take k ?all)) = Inr fi"
    then have "length ds < k" by simp
    with a Cons.prems(3) show "IsDir (Mode fi)" by blast
  qed
  note ih0 = Cons.IH [of ?ds', unfolded eq, OF Cons.prems(1) Cons.prems(2) p3]
  have ih: "(plain_walk F uid gi mode (join_path ?ds') cs = Inr ())
     = ((\<forall>k. 0 < k \<and> k < ?n \<longrightarrow> passes F uid gi 1 (joined (take k ?all)))
        \<and> passes F uid gi mode (join_path ?all))"
    unfolding ih0 by simp
  let ?R = "(\<forall>k. 0 < k \<and> k < ?n \<longrightarrow> passes F uid gi 1 (joined (take k ?all)))
        \<and> passes F uid gi mode (join_path ?all)"
  have ex: "?R \<Longrightarrow> \<exists>fi. F (joined ?ds') = Inr fi \<and> (IsDir (Mode fi) \<or> cs = [])"
  proof -
    assume R: ?R
    show ?thesis
    proof (cases "cs = []")
      case True
      with R have "passes F uid gi mode (joined ?ds')" by (simp add: join_path_def)
      from passes_exists [OF this] True show ?thesis by blast
    next
      case False
      then have lt: "Suc (length ds) < ?n" by (cases cs) auto
      with R have "passes F uid gi 1 (joined (take (Suc (length ds)) ?all))" by blast
      from passes_exists [OF this] obtain fi where fi: "F (joined ?ds') = Inr fi"
        unfolding pre by blast
      with Cons.prems(3) [rule_format, of "Suc (length ds)" fi] lt have "IsDir (Mode fi)"
        unfolding pre by simp
      with fi show ?thesis by blast
    qed
  qed
  have chk: "?R \<Longrightarrow> ds \<noteq> [] \<Longrightarrow> check F uid gi 1 (with_sep (join_path ds)) = Inr ()"
  proof -
    assume R: ?R and ne: "ds \<noteq> []"
    have l: "0 < length ds" "length ds < ?n" using ne by auto
    have t: "\<And>k. k \<le> length ds \<Longrightarrow> take k ?all = take k ds" by simp
    from R l have "passes F uid gi 1 (joined (take (length ds) ?all))" by blast
    then have p1: "passes F uid gi 1 (joined ds)" by simp
    have "F (joined (take (length ds) ?all) @ ''/'') = F (joined (take (length ds) ?all))"
      using Cons.prems(2) l by blast
    then have "F (joined ds @ ''/'') = F (joined ds)" by simp
    with p1 have p2: "passes F uid gi 1 (joined ds @ ''/'')"
      using passes_cong [of F "joined ds @ ''/''" "joined ds"] by simp
    have p3: "\<forall>k. 0 < k \<and> k \<le> length ds \<longrightarrow> passes F uid gi 1 (joined (take k ds))"
    proof (intro allI impI)
      fix k assume k: "0 < k \<and> k \<le> length ds"
      with l have "0 < k \<and> k < ?n" by simp
      with R have "passes F uid gi 1 (joined (take k ?all))" by blast
      with k show "passes F uid gi 1 (joined (take k ds))" by (simp add: t)
    qed
    show ?thesis
      using check_ok_joined_sep [OF o ne, of F uid gi] p2 p3 with_sep_join [OF o] ne by simp
  qed
  have A: "(plain_walk F uid gi mode (join_path ds) (c # cs) = Inr ())
     = (check F uid gi 1 (with_sep (join_path ds)) = Inr ()
        \<and> (\<exists>fi. F (joined ?ds') = Inr fi \<and> (IsDir (Mode fi) \<or> cs = []))
        \<and> plain_walk F uid gi mode (join_path ?ds') cs = Inr ())"
    by (simp only: plain_walk_Cons_ok d' jd')
  have D: "ds = [] \<Longrightarrow> (check F uid gi 1 (with_sep (join_path ds)) = Inr ()) = passes F uid gi 1 ''/''"
    using with_sep_join [OF o] by (simp add: check_ok_root)
  have ne: "c # cs \<noteq> []" by simp
  show ?case
    unfolding A ih using ex chk D ne by (cases "ds = []") blast+
qed

lemma plain_walk_benign:
  assumes "\<forall>c\<in>set (ds @ cs). ordinary_comp c"
      and "\<forall>k fi. length ds < k \<and> k < length (ds @ cs) \<and> F (joined (take k (ds @ cs))) = Inr fi
             \<longrightarrow> IsDir (Mode fi)"
  shows "benign (plain_walk F uid gi mode (join_path ds) cs)"
  using assms
proof (induction cs arbitrary: ds)
  case Nil
  show ?case using check_abs_benign join_path_abs by simp
next
  case (Cons c cs)
  let ?ds' = "ds @ [c]"
  let ?all = "ds @ c # cs"
  have eq: "?ds' @ cs = ?all" by simp
  from Cons.prems(1) have o: "\<forall>c\<in>set ds. ordinary_comp c" and o': "\<forall>c\<in>set (?ds' @ cs). ordinary_comp c"
    by auto
  have d': "with_sep (join_path ds) @ c = join_path ?ds'"
    by (rule with_sep_join_snoc [OF o])
  have pre: "join_path ?ds' = joined (take (Suc (length ds)) ?all)" by (simp add: join_path_def)
  have p3: "\<forall>k fi. length ?ds' < k \<and> k < length ?all \<and> F (joined (take k ?all)) = Inr fi
             \<longrightarrow> IsDir (Mode fi)"
  proof (intro allI impI)
    fix k fi assume a: "length ?ds' < k \<and> k < length ?all \<and> F (joined (take k ?all)) = Inr fi"
    then have "length ds < k" by simp
    with a Cons.prems(2) show "IsDir (Mode fi)" by blast
  qed
  have ih: "benign (plain_walk F uid gi mode (join_path ?ds') cs)"
    by (rule Cons.IH [of ?ds', unfolded eq, OF Cons.prems(1) p3])
  have b: "benign (check F uid gi 1 (with_sep (join_path ds)))"
    using check_abs_benign with_sep_abs join_path_abs by simp
  show ?case
  proof (cases "check F uid gi 1 (with_sep (join_path ds))")
    case (Inl e)
    with b show ?thesis by (simp add: benign_def)
  next
    case (Inr u)
    show ?thesis
    proof (cases "F (join_path ?ds')")
      case (Inl e)
      with Inr d' show ?thesis by (simp add: benign_def)
    next
      case fi: (Inr fi)
      have "cs \<noteq> [] \<Longrightarrow> IsDir (Mode fi)"
      proof -
        assume "cs \<noteq> []"
        then have "Suc (length ds) < length ?all" by (cases cs) auto
        with Cons.prems(2) [rule_format, of "Suc (length ds)" fi] fi show ?thesis
          unfolding pre by simp
      qed
      with Inr fi d' ih show ?thesis by auto
    qed
  qed
qed

lemma no_links_prefixes:
  assumes "\<forall>c\<in>set (ds @ cs). ordinary_comp c"
      and "\<forall>k fi. length ds < k \<and> k \<le> length (ds @ cs) \<and> F (joined (take k (ds @ cs))) = Inr fi
             \<longrightarrow> Mode fi AND ModeSymlink = 0"
  shows "no_links F (join_path ds) cs"
  using assms
proof (induction cs arbitrary: ds)
  case Nil
  show ?case by simp
next
  case (Cons c cs)
  let ?ds' = "ds @ [c]"
  let ?all = "ds @ c # cs"
  have eq: "?ds' @ cs = ?all" by simp
  from Cons.prems(1) have o: "\<forall>c\<in>set ds. ordinary_comp c" by simp
  have d': "with_sep (join_path ds) @ c = join_path ?ds'"
    by (rule with_sep_join_snoc [OF o])
  have pre: "join_path ?ds' = joined (take (Suc (length ds)) ?all)" by (simp add: join_path_def)
  have here: "\<And>fi. F (join_path ?ds') = Inr fi \<Longrightarrow> Mode fi AND ModeSymlink = 0"
    using Cons.prems(2) [rule_format, of "Suc (length ds)"] unfolding pre by simp
  have p2: "\<forall>k fi. length ?ds' < k \<and> k \<le> length ?all \<and> F (joined (take k ?all)) = Inr fi
             \<longrightarrow> Mode fi AND ModeSymlink = 0"
  proof (intro allI impI)
    fix k fi assume a: "length ?ds' < k \<and> k \<le> length ?all \<and> F (joined (take k ?all)) = Inr fi"
    then have "length ds < k" by simp
    with a Cons.prems(2) show "Mode fi AND ModeSymlink = 0" by blast
  qed
  have "no_links F (join_path ?ds') cs"
    by (rule Cons.IH [of ?ds', unfolded eq, OF Cons.prems(1) p2])
  with here show ?case
    by (simp only: no_links.simps d' split: sum.split) simp
qed

lemma access_plain:
  assumes "\<forall>c\<in>set cs. ordinary_comp c" and "no_links F ''/'' cs"
  shows "fst (access (static_env F L) (Inr gi) uid mode (join_path cs))
         = plain_walk F uid gi mode ''/'' cs"
proof -
  let ?s = "\<lparr>wpath = join_path cs, wpos = 1, wdest = ''/'', linksWalked = 0, whist = []\<rparr>"
  have p: "join_path cs = ''/'' @ [] @ (case cs of [] \<Rightarrow> [] | c # cs' \<Rightarrow> c @ joined cs')"
    by (cases cs) (simp_all add: join_path_def joined_Cons)
  have w: "walking ?s cs"
    using p by (intro walkingI [of _ "''/''" "[]"]) (simp_all add: is_seps_def)
  have a: "access (static_env F L) (Inr gi) uid mode (join_path cs)
           = walk_loop (static_env F L) uid gi mode 1 ''/'' ?s"
    using join_path_abs [of cs]
    by (cases "join_path cs") (simp_all add: access_def Let_def IsPathSeparator_def)
  show ?thesis
    unfolding a using walk_loop_plain [OF w assms(1), of F L uid gi mode 1 "''/''"] assms(2)
    by simp
qed

lemma passes_has_mode:
  assumes "0 < uid" "uid < 2 ^ 32" "m \<le> 7"
  shows "passes F uid gi m q = has_mode F uid gi m q"
  using denied_iff_spec [OF assms]
  by (simp add: passes_def has_mode_def split: sum.splits)

section \<open>From the call to a state of the loop\<close>

lemma access_walk:
  "Abs E p = Inr q \<Longrightarrow>
   access E (Inr gi) uid mode p
   = walk_loop E uid gi mode (volLen_of q) (take (volLen_of q) q) (initial q)"
  by (simp add: access_def volLen_of_def initial_def Let_def)

lemma walk_loop_reaches:
  "reaches E uid gi volLen vol s t \<Longrightarrow>
   walk_loop E uid gi mode volLen vol s = walk_loop E uid gi mode volLen vol t"
  by (induction rule: reaches.induct) (simp_all add: walk_loop_Continue)

lemma access_walks_to:
  "Abs E p = Inr q \<Longrightarrow> walks_to E uid gi q s \<Longrightarrow>
   access E (Inr gi) uid mode p
   = walk_loop E uid gi mode (volLen_of q) (take (volLen_of q) q) s"
  unfolding walks_to_def by (simp add: access_walk walk_loop_reaches)

text \<open>An ordinary component whose check passes and which is there.\<close>

lemma walk_step_resolve:
  assumes "wpath s = a @ xs @ c @ rest" and "wpos s = length a"
      and "is_seps xs" and "ordinary_comp c" and "at_boundary rest"
      and "checkPath E (whist s) uid gi 1 (with_sep (wdest s)) = (Inr (), h)"
  shows "walk_step E uid gi volLen vol s
         = resolve E volLen vol s (length a + length xs + length c) (with_sep (wdest s) @ c) h"
proof -
  from assms(4) have c: "no_sep c" "c \<noteq> []" "c \<noteq> ''.''" "c \<noteq> ''..''"
    by (auto simp: ordinary_comp_def)
  from walk_step_component [OF assms(1,2,3) c(1,2) assms(5), of E uid gi volLen vol] c assms(6)
  show ?thesis by (simp add: Let_def ordinary_eq)
qed

lemma component_more:
  assumes "wpath s = a @ xs @ c @ rest" and "wpos s = length a" and "c \<noteq> []"
  shows "wpos s < length (wpath s)"
    and "(length a + length xs + length c < length (wpath s)) = (rest \<noteq> [])"
  using assms by auto

section \<open>Progress of the loop\<close>

lemma walk_iter_enough:
  "\<exists>n. walk_iter n E uid gi mode volLen vol s = Some (walk_loop E uid gi mode volLen vol s)"
proof (induction E uid gi mode volLen vol s rule: walk_loop.induct)
  case (1 E uid gi mode volLen vol s)
  show ?case
  proof (cases "wpos s < length (wpath s)")
    case False
    then have "walk_iter (Suc 0) E uid gi mode volLen vol s
               = Some (walk_loop E uid gi mode volLen vol s)"
      by (simp add: walk_loop_done)
    then show ?thesis by blast
  next
    case True
    show ?thesis
    proof (cases "walk_step E uid gi volLen vol s")
      case (Continue s')
      from 1 [OF True Continue] obtain n where
        "walk_iter n E uid gi mode volLen vol s' = Some (walk_loop E uid gi mode volLen vol s')"
        by blast
      then have "walk_iter (Suc n) E uid gi mode volLen vol s
                 = Some (walk_loop E uid gi mode volLen vol s)"
        using True Continue by (simp add: walk_loop_Continue)
      then show ?thesis by blast
    next
      case Break
      then have "walk_iter (Suc 0) E uid gi mode volLen vol s
                 = Some (walk_loop E uid gi mode volLen vol s)"
        using True by (simp add: walk_loop_Break)
      then show ?thesis by blast
    next
      case (Fail e h)
      then have "walk_iter (Suc 0) E uid gi mode volLen vol s
                 = Some (walk_loop E uid gi mode volLen vol s)"
        using True by (simp add: walk_loop_Fail)
      then show ?thesis by blast
    qed
  qed
qed

lemma skip_sep_le: "i \<le> length p \<Longrightarrow> skip_sep p i \<le> length p"
proof (induction p i rule: skip_sep.induct)
  case (1 p i)
  show ?case
    by (subst skip_sep.simps) (use 1 in auto)
qed

lemma scan_comp_le: "i \<le> length p \<Longrightarrow> scan_comp p i \<le> length p"
proof (induction p i rule: scan_comp.induct)
  case (1 p i)
  show ?case
    by (subst scan_comp.simps) (use 1 in auto)
qed

lemma walk_step_progress:
  assumes "wpos s < length (wpath s)" and "walk_step E uid gi volLen vol s = Continue s'"
  shows "(linksWalked s' = linksWalked s \<and> wpath s' = wpath s \<and> wpos s < wpos s'
          \<and> wpos s' \<le> length (wpath s))
         \<or> (linksWalked s' = linksWalked s + 1 \<and> linksWalked s' \<le> 255)"
proof -
  let ?start = "skip_sep (wpath s) (wpos s)"
  let ?end = "scan_comp (wpath s) ?start"
  have a: "wpos s \<le> ?start" by (rule skip_sep_ge)
  have b: "?start \<le> ?end" by (rule scan_comp_ge)
  have "?start \<le> length (wpath s)" using assms(1) by (intro skip_sep_le) simp
  then have c: "?end \<le> length (wpath s)" by (rule scan_comp_le)
  from walk_step_Continue [OF assms(2)] a b c show ?thesis by auto
qed

lemma checkPath_calls:
  "length (snd (checkPath E h uid gid mode p)) \<le> length h + length p"
proof (induction E h uid gid mode p rule: checkPath.induct)
  case (1 E h uid gid mode p)
  show ?case
  proof (cases "p = []")
    case True then show ?thesis by (simp add: checkPath_Nil)
  next
    case ne: False
    then have l: "Suc (length h) \<le> length h + length p" by (cases p) auto
    show ?thesis
    proof (cases "lstat E h p")
      case (Inl e)
      with ne l show ?thesis by (simp add: checkPath_Lstat_error)
    next
      case (Inr fi)
      then have os: "(Inr fi, h @ [Lstat p]) = os_Lstat E h p" by (simp add: os_Lstat_def)
      show ?thesis
      proof (cases "denied uid gid mode fi")
        case True
        with ne Inr l show ?thesis by (simp add: checkPath_denied)
      next
        case nd: False
        show ?thesis
        proof (cases "LastIndexSep p")
          case None
          with ne Inr nd l show ?thesis by (simp add: checkPath_NoSlash)
        next
          case (Some i)
          from 1 [OF _ os refl nd Some] ne
          have "length (snd (checkPath E (h @ [Lstat p]) uid gid 1 (take i p)))
                \<le> length (h @ [Lstat p]) + length (take i p)" by simp
          also have "\<dots> \<le> length h + length p"
            using LastIndexSep_less [OF Some] by simp
          finally show ?thesis using ne Inr nd Some by (simp add: checkPath_parent)
        qed
      qed
    qed
  qed
qed

section \<open>The resolved prefix\<close>

lemma joined_last_plain:
  assumes "\<forall>c\<in>set ds. plain_comp c" and "ds \<noteq> []"
  shows "joined ds \<noteq> [] \<and> \<not> IsPathSeparator (last (joined ds))"
proof -
  from assms(2) obtain ds' c where ds: "ds = ds' @ [c]" by (metis rev_exhaust)
  with assms(1) have c: "c \<noteq> []" "no_sep c" by (auto simp: plain_comp_def)
  then have "\<not> IsPathSeparator (last c)" by (auto simp: no_sep_def)
  with c ds show ?thesis by (simp add: joined_snoc)
qed

lemma with_sep_join_plain:
  assumes "\<forall>c\<in>set ds. plain_comp c"
  shows "with_sep (join_path ds) @ c = join_path (ds @ [c])"
proof (cases "ds = []")
  case True
  then show ?thesis
    by (simp add: with_sep_def join_path_def IsPathSeparator_def joined_single)
next
  case False
  with joined_last_plain [OF assms False] show ?thesis
    by (simp add: with_sep_def join_path_def joined_snoc)
qed

lemma rscan_past:
  "no_sep c \<Longrightarrow> rscan lo (x @ c) (length x + length c) = rscan lo (x @ c) (length x)"
proof (induction c rule: rev_induct)
  case Nil
  show ?case by simp
next
  case (snoc y c)
  then have y: "\<not> IsPathSeparator y" and c: "no_sep c" by (auto simp: no_sep_def)
  have n: "(x @ c @ [y]) ! (length x + length c) = y" by (simp add: nth_append)
  have e: "\<And>k. k \<le> length x + length c \<Longrightarrow> rscan lo (x @ c @ [y]) k = rscan lo (x @ c) k"
  proof -
    fix k show "k \<le> length x + length c \<Longrightarrow> rscan lo (x @ c @ [y]) k = rscan lo (x @ c) k"
      by (induction k) (auto simp: nth_append)
  qed
  have "rscan lo (x @ c @ [y]) (Suc (length x + length c))
        = (if Suc (length x + length c) \<le> lo then None else rscan lo (x @ c @ [y]) (length x + length c))"
    using y n by simp
  also have "\<dots> = (if Suc (length x + length c) \<le> lo then None else rscan lo (x @ c @ [y]) (length x))"
    using snoc.IH [OF c] e by simp
  also have "\<dots> = rscan lo (x @ c @ [y]) (length x)"
  proof (cases "Suc (length x + length c) \<le> lo")
    case True
    then have "length x \<le> lo" by simp
    then have "rscan lo (x @ c @ [y]) (length x) = None" by (cases "length x") auto
    with True show ?thesis by simp
  next
    case False then show ?thesis by simp
  qed
  finally show ?case by simp
qed

lemma rscan_component:
  assumes "no_sep c"
  shows "rscan (Suc 0) (x @ CHR ''/'' # c) (Suc (length x + length c))
         = (if x = [] then None else Some (length x))"
proof -
  have "rscan (Suc 0) ((x @ ''/'') @ c) (length (x @ ''/'') + length c)
        = rscan (Suc 0) ((x @ ''/'') @ c) (length (x @ ''/''))"
    by (rule rscan_past [OF assms])
  then have "rscan (Suc 0) (x @ CHR ''/'' # c) (Suc (length x + length c))
        = rscan (Suc 0) (x @ CHR ''/'' # c) (Suc (length x))" by simp
  also have "\<dots> = (if x = [] then None else Some (length x))"
    by (simp add: nth_append IsPathSeparator_def)
  finally show ?thesis .
qed

lemma rscan_join:
  assumes "no_sep c"
  shows "rscan 1 (join_path (ds @ [c])) (length (join_path (ds @ [c])))
         = (if ds = [] then None else Some (length (joined ds)))"
  using rscan_component [OF assms, of "joined ds"]
  by (simp add: join_path_def joined_snoc joined_eq_Nil)

lemma link_parent_join:
  assumes "\<forall>c\<in>set ds. plain_comp c" and "no_sep c"
  shows "link_parent 1 ''/'' (join_path (ds @ [c])) = join_path ds"
  unfolding link_parent_def rscan_join [OF assms(2)]
  by (simp add: join_path_def joined_snoc)

lemma dotdot_dest_join:
  assumes "\<forall>c\<in>set ds. plain_comp c"
  shows "dotdot_dest 1 (join_path ds)
         = (if 2 \<le> length ds \<and> last ds \<noteq> ''..'' then join_path (butlast ds)
            else join_path (ds @ [''..'']))"
proof (cases "ds = []")
  case True
  then show ?thesis by (simp add: dotdot_dest_def join_path_def joined_single)
next
  case False
  then obtain ds' c where ds: "ds = ds' @ [c]" by (metis rev_exhaust)
  with assms have c: "no_sep c" "c \<noteq> []" by (simp_all add: plain_comp_def)
  have len: "1 < length (join_path ds)"
    using c by (cases c) (simp_all add: ds join_path_def joined_snoc)
  have keep: "(if 1 < length (join_path ds) then join_path ds @ ''/'' else join_path ds) @ ''..''
              = join_path (ds @ [''..''])"
    using len by (simp add: ds join_path_def joined_def)
  have d: "dotdot_dest 1 (join_path ds)
     = (case (if ds' = [] then None else Some (length (joined ds'))) of
          None \<Rightarrow> join_path (ds @ [''..''])
        | Some r \<Rightarrow> if drop (r + 1) (join_path ds) = ''..'' then join_path (ds @ [''..''])
                    else take r (join_path ds))"
    unfolding dotdot_dest_def Let_def keep
    unfolding ds rscan_join [OF c(1)] ..
  show ?thesis
  proof (cases "ds' = []")
    case True
    then show ?thesis unfolding d by (simp add: ds)
  next
    case ne: False
    then have "2 \<le> length ds" by (cases ds') (auto simp: ds)
    moreover have "drop (length (joined ds') + 1) (join_path ds) = c"
      "take (length (joined ds')) (join_path ds) = join_path ds'"
      using ne by (simp_all add: ds join_path_def joined_snoc)
    ultimately show ?thesis unfolding d using ne by (simp add: ds)
  qed
qed

lemma path_shape:
  assumes "i \<le> length p"
  shows "\<exists>xs c rest. p = take i p @ xs @ c @ rest \<and> is_seps xs \<and> no_sep c \<and> at_boundary rest
           \<and> (c = [] \<longrightarrow> rest = [])"
proof -
  let ?t = "drop i p"
  let ?xs = "takeWhile IsPathSeparator ?t"
  let ?u = "dropWhile IsPathSeparator ?t"
  let ?c = "takeWhile (\<lambda>x. \<not> IsPathSeparator x) ?u"
  let ?r = "dropWhile (\<lambda>x. \<not> IsPathSeparator x) ?u"
  have 1: "p = take i p @ ?xs @ ?c @ ?r" by simp
  have 2: "is_seps ?xs" by (auto simp: is_seps_def dest: set_takeWhileD)
  have 3: "no_sep ?c" by (auto simp: no_sep_def dest: set_takeWhileD)
  have 4: "at_boundary ?r"
  proof (cases "?r = []")
    case True then show ?thesis by (simp add: at_boundary_def)
  next
    case False
    from hd_dropWhile [OF False] show ?thesis by (simp add: at_boundary_def)
  qed
  have 5: "?c = [] \<longrightarrow> ?r = []"
  proof
    assume c: "?c = []"
    show "?r = []"
    proof (cases "?u = []")
      case True show ?thesis unfolding True by simp
    next
      case False
      from hd_dropWhile [OF False] have "\<not> IsPathSeparator (hd ?u)" .
      with False have "?c \<noteq> []" by (cases ?u) auto
      with c show ?thesis by simp
    qed
  qed
  from 1 2 3 4 5 show ?thesis by blast
qed

lemma walk_step_cases:
  assumes "wpos s \<le> length (wpath s)"
  shows "walk_step E uid gi volLen vol s = Break
         \<or> (\<exists>a xs c rest. wpath s = a @ xs @ c @ rest \<and> wpos s = length a \<and> is_seps xs
               \<and> plain_comp c \<and> at_boundary rest)"
proof -
  from path_shape [OF assms] obtain xs c rest where
    p: "wpath s = take (wpos s) (wpath s) @ xs @ c @ rest" "is_seps xs" "no_sep c"
       "at_boundary rest" "c = [] \<longrightarrow> rest = []" by blast
  have l: "wpos s = length (take (wpos s) (wpath s))" using assms by simp
  show ?thesis
  proof (cases "c = []")
    case True
    with p have "wpath s = take (wpos s) (wpath s) @ xs" by simp
    from walk_step_break [OF this l p(2)] show ?thesis by blast
  next
    case False
    with p l show ?thesis unfolding plain_comp_def by blast
  qed
qed

lemma plain_dotdot: "plain_comp ''..''"
  by (simp add: plain_comp_def no_sep_def IsPathSeparator_def)

lemma dest_okI: "\<forall>c\<in>set ds. plain_comp c \<Longrightarrow> dest_ok (join_path ds)"
  unfolding dest_ok_def by blast

lemma dest_ok_dotdot: "dest_ok d \<Longrightarrow> dest_ok (dotdot_dest 1 d)"
proof -
  assume "dest_ok d"
  then obtain ds where ds: "d = join_path ds" "\<forall>c\<in>set ds. plain_comp c"
    by (auto simp: dest_ok_def)
  have a: "\<forall>c\<in>set (butlast ds). plain_comp c" using ds(2) by (auto dest: in_set_butlastD)
  have b: "\<forall>c\<in>set (ds @ [''..'']). plain_comp c" using ds(2) plain_dotdot by auto
  show ?thesis
    unfolding ds(1) dotdot_dest_join [OF ds(2)] using dest_okI [OF a] dest_okI [OF b] by simp
qed

lemma dest_ok_append:
  "dest_ok d \<Longrightarrow> plain_comp c \<Longrightarrow> dest_ok (with_sep d @ c) \<and> link_parent 1 ''/'' (with_sep d @ c) = d"
proof -
  assume "dest_ok d" and c: "plain_comp c"
  then obtain ds where ds: "d = join_path ds" "\<forall>c\<in>set ds. plain_comp c"
    by (auto simp: dest_ok_def)
  have w: "with_sep d @ c = join_path (ds @ [c])"
    unfolding ds(1) by (rule with_sep_join_plain [OF ds(2)])
  have "\<forall>x\<in>set (ds @ [c]). plain_comp x" using ds(2) c by auto
  then have "dest_ok (join_path (ds @ [c]))" unfolding dest_ok_def by blast
  moreover have "link_parent 1 ''/'' (join_path (ds @ [c])) = d"
    unfolding ds(1) using c by (intro link_parent_join [OF ds(2)]) (simp add: plain_comp_def)
  ultimately show ?thesis unfolding w by simp
qed

lemma dest_ok_root: "dest_ok ''/''"
  unfolding dest_ok_def by (rule exI [of _ "[]"]) (simp add: join_path_def)

lemma follow_link_dest_ok:
  assumes "dest_ok d0" and "plain_comp c"
      and "follow_link E 1 ''/'' s en (with_sep d0 @ c) h = Continue s'"
  shows "dest_ok (wdest s')"
proof (cases "readlink E h (with_sep d0 @ c)")
  case (Inl e)
  with assms(3) show ?thesis
    by (simp add: follow_link_def os_Readlink_def Let_def split: if_splits)
next
  case (Inr link)
  from assms(3) have lt: "linksWalked s < 255"
    by (simp add: follow_link_def Let_def split: if_splits)
  show ?thesis
  proof (cases "link \<noteq> [] \<and> IsPathSeparator (hd link)")
    case True
    then have "take 1 link = ''/''" by (cases link) (auto simp: IsPathSeparator_def)
    with assms(3) follow_link_absolute [OF lt Inr, of 1 "''/''" en] True dest_ok_root
    show ?thesis by auto
  next
    case False
    then have "link = [] \<or> \<not> IsPathSeparator (hd link)" by blast
    from follow_link_relative [OF lt Inr this, of 1 "''/''" en] assms(3)
         dest_ok_append [OF assms(1,2)] assms(1)
    show ?thesis by auto
  qed
qed

lemma walk_step_dest_ok:
  assumes "dest_ok (wdest s)" and "wpos s \<le> length (wpath s)"
      and "walk_step E uid gi 1 ''/'' s = Continue s'"
  shows "dest_ok (wdest s')"
proof -
  from walk_step_cases [OF assms(2), of E uid gi 1 "''/''"] assms(3)
  obtain a xs c rest where p: "wpath s = a @ xs @ c @ rest" "wpos s = length a" "is_seps xs"
      "plain_comp c" "at_boundary rest" by auto
  from p(4) have c: "no_sep c" "c \<noteq> []" by (simp_all add: plain_comp_def)
  let ?e = "length a + length xs + length c"
  note st = walk_step_component [OF p(1,2,3) c p(5), of E uid gi 1 "''/''"]
  show ?thesis
  proof (cases "c = ''.''")
    case True
    with st assms(3,1) show ?thesis by (auto simp: Let_def)
  next
    case nd: False
    show ?thesis
    proof (cases "c = ''..''")
      case True
      with st assms(3) nd dest_ok_dotdot [OF assms(1)] show ?thesis by (auto simp: Let_def)
    next
      case False
      with st nd assms(3) have o: "ordinary E uid gi 1 ''/'' s ?e c = Continue s'"
        by (simp add: Let_def)
      let ?d = "with_sep (wdest s) @ c"
      obtain r h where cp: "checkPath E (whist s) uid gi 1 (with_sep (wdest s)) = (r, h)"
        by (cases "checkPath E (whist s) uid gi 1 (with_sep (wdest s))")
      with o obtain u where "r = Inr u" and rs: "resolve E 1 ''/'' s ?e ?d h = Continue s'"
        by (cases r) (auto simp: ordinary_eq)
      show ?thesis
      proof (cases "lstat E h ?d")
        case (Inl e)
        with rs show ?thesis by (simp add: resolve_error)
      next
        case (Inr fi)
        show ?thesis
        proof (cases "Mode fi AND ModeSymlink = 0")
          case True
          from rs dest_ok_append [OF assms(1) p(4)] show ?thesis
            by (auto simp: resolve_plain [OF Inr True] split: if_splits)
        next
          case False
          from rs have "follow_link E 1 ''/'' s ?e ?d (h @ [Lstat ?d]) = Continue s'"
            by (simp add: resolve_link [OF Inr False])
          from follow_link_dest_ok [OF assms(1) p(4) this] show ?thesis .
        qed
      qed
    qed
  qed
qed

lemma reaches_dest_ok:
  "reaches E uid gi 1 ''/'' s t \<Longrightarrow> dest_ok (wdest s) \<Longrightarrow> dest_ok (wdest t)"
proof (induction rule: reaches.induct)
  case (reaches_refl s)
  then show ?case .
next
  case (reaches_step s t u)
  from reaches_step.IH [OF reaches_step.prems] have "dest_ok (wdest t)" .
  from walk_step_dest_ok [OF this _ reaches_step.hyps(3)] reaches_step.hyps(2)
  show ?case by simp
qed

lemma volLen_abs: "q \<noteq> [] \<Longrightarrow> IsPathSeparator (hd q) \<Longrightarrow> volLen_of q = 1 \<and> take 1 q = ''/''"
  by (cases q) (auto simp: volLen_of_def IsPathSeparator_def)

lemma walks_to_dest_ok:
  assumes "q \<noteq> []" and "IsPathSeparator (hd q)" and "walks_to E uid gi q s"
  shows "dest_ok (wdest s)"
proof -
  note v = volLen_abs [OF assms(1,2)]
  have "dest_ok (wdest (initial q))" using v dest_ok_root by (simp add: initial_def)
  with assms(3) reaches_dest_ok show ?thesis unfolding walks_to_def using v by auto
qed

lemma dotdot_dest_back:
  assumes "dest_ok d0" and "d0 \<noteq> ''/''" and "ordinary_comp c"
  shows "dotdot_dest 1 (with_sep d0 @ c) = d0"
proof -
  from assms(1) obtain ds where ds: "d0 = join_path ds" "\<forall>x\<in>set ds. plain_comp x"
    by (auto simp: dest_ok_def)
  with assms(2) have ne: "ds \<noteq> []" by (auto simp: join_path_def)
  from assms(3) have c: "plain_comp c" "c \<noteq> ''..''"
    by (simp_all add: ordinary_comp_def plain_comp_def)
  have w: "with_sep d0 @ c = join_path (ds @ [c])"
    unfolding ds(1) by (rule with_sep_join_plain [OF ds(2)])
  have all: "\<forall>x\<in>set (ds @ [c]). plain_comp x" using ds(2) c(1) by auto
  have two: "2 \<le> length (ds @ [c])" using ne by (cases ds) auto
  show ?thesis
    unfolding w dotdot_dest_join [OF all] using two c(2) by (simp add: ds(1))
qed

lemma is_seps_boundary: "is_seps ys \<Longrightarrow> ys \<noteq> [] \<Longrightarrow> at_boundary (ys @ t)"
  by (cases ys) (auto simp: is_seps_def at_boundary_def)

section \<open>Links followed\<close>

lemma readlinks_Lstat [simp]: "readlinks (h @ [Lstat p]) = readlinks h"
  by (simp add: readlinks_def)

lemma readlinks_Readlink [simp]: "readlinks (h @ [Readlink p]) = Suc (readlinks h)"
  by (simp add: readlinks_def)

lemma checkPath_only_lstat:
  "readlinks (snd (checkPath E h uid gid mode p)) = readlinks h
   \<and> fst (checkPath E h uid gid mode p) \<noteq> Inl TooManyLinks"
proof (induction E h uid gid mode p rule: checkPath.induct)
  case (1 E h uid gid mode p)
  show ?case
  proof (cases "p = []")
    case True then show ?thesis by (simp add: checkPath_Nil)
  next
    case ne: False
    show ?thesis
    proof (cases "lstat E h p")
      case (Inl e)
      with ne show ?thesis by (simp add: checkPath_Lstat_error)
    next
      case (Inr fi)
      then have os: "(Inr fi, h @ [Lstat p]) = os_Lstat E h p" by (simp add: os_Lstat_def)
      show ?thesis
      proof (cases "denied uid gid mode fi")
        case True
        with ne Inr show ?thesis by (simp add: checkPath_denied)
      next
        case nd: False
        show ?thesis
        proof (cases "LastIndexSep p")
          case None
          with ne Inr nd show ?thesis by (simp add: checkPath_NoSlash)
        next
          case (Some i)
          from 1 [OF _ os refl nd Some] ne show ?thesis
            using ne Inr nd Some by (simp add: checkPath_parent)
        qed
      qed
    qed
  qed
qed

lemma follow_link_budget:
  "(follow_link E volLen vol s en d h = Continue s' \<longrightarrow> budget s' (whist s') = budget s h)
   \<and> (follow_link E volLen vol s en d h = Fail e h' \<longrightarrow>
        readlinks h' \<le> budget s h \<and> (e = TooManyLinks \<longrightarrow> readlinks h' = budget s h))"
proof (cases "linksWalked s < 255")
  case False
  then have "follow_link E volLen vol s en d h = Fail TooManyLinks h"
    by (simp add: follow_link_too_many)
  with False show ?thesis by (simp add: budget_def)
next
  case lt: True
  show ?thesis
  proof (cases "readlink E h d")
    case (Inl er)
    from follow_link_error [OF lt Inl] lt show ?thesis by (auto simp: budget_def)
  next
    case (Inr link)
    show ?thesis
    proof (cases "link \<noteq> [] \<and> IsPathSeparator (hd link)")
      case True
      with follow_link_absolute [OF lt Inr, of volLen vol en] lt show ?thesis
        by (auto simp: budget_def)
    next
      case False
      then have "link = [] \<or> \<not> IsPathSeparator (hd link)" by blast
      from follow_link_relative [OF lt Inr this, of volLen vol en] lt show ?thesis
        by (auto simp: budget_def)
    qed
  qed
qed

lemma resolve_budget:
  "(resolve E volLen vol s en d h = Continue s' \<longrightarrow> budget s' (whist s') = budget s h)
   \<and> (resolve E volLen vol s en d h = Fail e h' \<longrightarrow>
        readlinks h' \<le> budget s h \<and> (e = TooManyLinks \<longrightarrow> readlinks h' = budget s h))"
proof (cases "lstat E h d")
  case (Inl er)
  then show ?thesis by (auto simp: resolve_error budget_def)
next
  case (Inr fi)
  show ?thesis
  proof (cases "Mode fi AND ModeSymlink = 0")
    case True
    then show ?thesis by (auto simp: resolve_plain [OF Inr True] budget_def)
  next
    case False
    from follow_link_budget [of E volLen vol s en d "h @ [Lstat d]" s' e h']
    show ?thesis by (simp add: resolve_link [OF Inr False] budget_def)
  qed
qed

lemma ordinary_budget:
  "(ordinary E uid gi volLen vol s en c = Continue s' \<longrightarrow> budget s' (whist s') = budget s (whist s))
   \<and> (ordinary E uid gi volLen vol s en c = Fail e h' \<longrightarrow>
        readlinks h' \<le> budget s (whist s) \<and> (e = TooManyLinks \<longrightarrow> readlinks h' = budget s (whist s)))"
proof (cases "checkPath E (whist s) uid gi 1 (with_sep (wdest s))")
  case (Pair r h)
  with checkPath_only_lstat [of E "whist s" uid gi 1 "with_sep (wdest s)"]
  have k: "readlinks h = readlinks (whist s)" "r \<noteq> Inl TooManyLinks" by simp_all
  then have b: "budget s h = budget s (whist s)" by (simp add: budget_def)
  show ?thesis
  proof (cases r)
    case (Inl er)
    with Pair k show ?thesis by (auto simp: ordinary_eq budget_def)
  next
    case (Inr u)
    with Pair resolve_budget [of E volLen vol s en "with_sep (wdest s) @ c" h s' e h'] b
    show ?thesis by (simp add: ordinary_eq)
  qed
qed

lemma walk_step_budget:
  "(walk_step E uid gi volLen vol s = Continue s' \<longrightarrow> budget s' (whist s') = budget s (whist s))
   \<and> (walk_step E uid gi volLen vol s = Fail e h' \<longrightarrow>
        readlinks h' \<le> budget s (whist s) \<and> (e = TooManyLinks \<longrightarrow> readlinks h' = budget s (whist s)))"
  using ordinary_budget [of E uid gi volLen vol s _ _ s' e h']
  unfolding walk_step_def Let_def
  by (auto simp: budget_def)

lemma walk_loop_budget:
  "readlinks (snd (walk_loop E uid gi mode volLen vol s)) \<le> budget s (whist s)
   \<and> (fst (walk_loop E uid gi mode volLen vol s) = Inl TooManyLinks \<longrightarrow>
        readlinks (snd (walk_loop E uid gi mode volLen vol s)) = budget s (whist s))"
proof (induction E uid gi mode volLen vol s rule: walk_loop.induct)
  case (1 E uid gi mode volLen vol s)
  note cp = checkPath_only_lstat [of E "whist s" uid gi mode "wdest s"]
  show ?case
  proof (cases "wpos s < length (wpath s)")
    case False
    with cp show ?thesis by (simp add: walk_loop_done budget_def)
  next
    case True
    show ?thesis
    proof (cases "walk_step E uid gi volLen vol s")
      case (Continue s')
      with walk_step_budget [of E uid gi volLen vol s s'] 1 [OF True Continue]
      show ?thesis by (simp add: walk_loop_Continue [OF True Continue])
    next
      case Break
      with cp show ?thesis by (simp add: walk_loop_Break budget_def)
    next
      case (Fail e h)
      with walk_step_budget [of E uid gi volLen vol s _ e h]
      show ?thesis by (simp add: walk_loop_Fail [OF True Fail])
    qed
  qed
qed

lemma access_budget:
  "readlinks (snd (access E groups uid mode p)) \<le> 255
   \<and> (fst (access E groups uid mode p) = Inl TooManyLinks \<longrightarrow>
        readlinks (snd (access E groups uid mode p)) = 255)"
proof (cases groups)
  case (Inl e)
  then show ?thesis by (simp add: access_def readlinks_def)
next
  case (Inr gi)
  show ?thesis
  proof (cases "Abs E p")
    case (Inl e)
    with Inr show ?thesis by (simp add: access_def readlinks_def)
  next
    case q: (Inr q)
    from walk_loop_budget [of E uid gi mode "volLen_of q" "take (volLen_of q) q" "initial q"]
    show ?thesis
      unfolding Inr access_walk [OF q]
      by (simp add: budget_def initial_def readlinks_def)
  qed
qed

section \<open>A chain of links\<close>

lemma chain_name_Suc: "chain_name (Suc k) = CHR ''l'' # chain_name k"
  by (simp add: chain_name_def)

lemma chain_name_ordinary: "0 < k \<Longrightarrow> ordinary_comp (chain_name k)"
proof -
  assume "0 < k"
  then obtain j where k: "k = Suc j" by (cases k) auto
  have "set (chain_name k) \<subseteq> {CHR ''l''}" by (auto simp: chain_name_def)
  then have n: "no_sep (chain_name k)" by (auto simp: no_sep_def IsPathSeparator_def)
  have "hd (chain_name k) = CHR ''l''" by (simp add: k chain_name_Suc)
  then have "chain_name k \<noteq> ''.''" "chain_name k \<noteq> ''..''" by auto
  with n show ?thesis by (simp add: ordinary_comp_def k chain_name_Suc)
qed

lemma chain_index_name: "0 < k \<Longrightarrow> chain_index (CHR ''/'' # chain_name k) = Some k"
  by (cases k) (simp_all add: chain_index_def chain_name_def)

lemma chain_fs_name:
  "0 < k \<Longrightarrow> chain_fs n (CHR ''/'' # chain_name k)
     = (if k \<le> n then Inr (a_link 511 0 0) else if k = Suc n then Inr (a_file 420 0 0) else Inl 2)"
proof -
  assume k: "0 < k"
  then have "chain_name k \<noteq> []" by (simp add: chain_name_def)
  then show ?thesis by (simp add: chain_fs_def chain_index_name [OF k])
qed

lemma chain_targets_name:
  "0 < k \<Longrightarrow> k \<le> n \<Longrightarrow> chain_targets n (CHR ''/'' # chain_name k) = Inr (chain_name (Suc k))"
  by (simp add: chain_targets_def chain_index_name)

lemma chain_check_root:
  "checkPath (chain_env n) h uid gi 1 ''/'' = (Inr (), h @ [Lstat ''/''])"
proof -
  have nd: "\<not> denied uid gi 1 (a_dir 493 0 0)"
    by (simp add: denied_def a_dir_def ModeDir_def)
  have l: "lstat (chain_env n) h ''/'' = Inr (a_dir 493 0 0)"
    by (simp add: chain_env_def chain_fs_def)
  have i: "LastIndexSep ''/'' = Some 0"
    using LastIndexSep_snoc [of "[]" "[]"] by (simp add: no_sep_def)
  from checkPath_parent [OF _ l nd i] show ?thesis by (simp add: checkPath_Nil)
qed

lemma chain_check_file:
  assumes "0 < k" and "k = Suc n"
  shows "fst (checkPath (chain_env n) h uid gi Read (CHR ''/'' # chain_name k)) = Inr ()"
proof -
  have nd: "\<not> denied uid gi Read (a_file 420 0 0)"
    by (simp add: denied_def a_file_def Read_def)
  have l: "lstat (chain_env n) h (CHR ''/'' # chain_name k) = Inr (a_file 420 0 0)"
    using assms by (simp add: chain_env_def chain_fs_name)
  have ns: "no_sep (chain_name k)" using chain_name_ordinary [OF assms(1)] by (simp add: ordinary_comp_def)
  have i: "LastIndexSep (CHR ''/'' # chain_name k) = Some 0"
    using LastIndexSep_snoc [OF ns, of "[]"] by simp
  from checkPath_parent [OF _ l nd i] show ?thesis by (simp add: checkPath_Nil)
qed

lemma chain_walk:
  assumes "0 < k" and "k \<le> Suc n" and "k \<le> 256"
      and "wpath s = a @ chain_name k" and "wpos s = length a"
      and "wdest s = ''/''" and "linksWalked s = k - 1"
  shows "fst (walk_loop (chain_env n) uid gi Read 1 ''/'' s)
         = (if n \<le> 255 then Inr () else Inl TooManyLinks)"
  using assms
proof (induction "Suc n - k" arbitrary: k s a)
  case 0
  then have k: "k = Suc n" by simp
  let ?E = "chain_env n"
  let ?c = "chain_name k"
  let ?d = "CHR ''/'' # ?c"
  let ?h = "whist s @ [Lstat ''/'']"
  note oc = chain_name_ordinary [OF "0.prems"(1)]
  then have ne: "?c \<noteq> []" by (simp add: ordinary_comp_def)
  have p: "wpath s = a @ [] @ ?c @ []" using "0.prems"(4) by simp
  have ws: "with_sep (wdest s) = ''/''"
    by (simp add: "0.prems"(6) with_sep_def IsPathSeparator_def)
  have cp: "checkPath ?E (whist s) uid gi 1 (with_sep (wdest s)) = (Inr (), ?h)"
    unfolding ws by (rule chain_check_root)
  have st: "walk_step ?E uid gi 1 ''/'' s = resolve ?E 1 ''/'' s (length a + length ([] :: string) + length ?c) ?d ?h"
    using walk_step_resolve [OF p "0.prems"(5) _ oc _ cp, of 1 "''/''"] ws
    by (simp add: is_seps_def at_boundary_def)
  have l: "lstat ?E ?h ?d = Inr (a_file 420 0 0)"
    using "0.prems"(1) k by (simp add: chain_env_def chain_fs_name)
  have m: "Mode (a_file 420 0 0) AND ModeSymlink = 0"
    by (simp add: a_file_def ModeSymlink_def)
  let ?s' = "s\<lparr>wpos := length a + length ?c, wdest := ?d, whist := ?h @ [Lstat ?d]\<rparr>"
  have c: "walk_step ?E uid gi 1 ''/'' s = Continue ?s'"
    using st "0.prems"(4) by (simp add: resolve_plain [OF l m])
  have lt: "wpos s < length (wpath s)" using "0.prems"(4,5) ne by simp
  have dn: "\<not> wpos ?s' < length (wpath ?s')" using "0.prems"(4) by simp
  have n: "n \<le> 255" using k "0.prems"(3) by simp
  have "walk_loop ?E uid gi Read 1 ''/'' s = checkPath ?E (whist ?s') uid gi Read (wdest ?s')"
    using walk_loop_Continue [OF lt c] walk_loop_done [OF dn] by simp
  then show ?case
    using chain_check_file [OF "0.prems"(1) k] n by simp
next
  case (Suc m)
  then have k: "k \<le> n" by simp
  let ?E = "chain_env n"
  let ?c = "chain_name k"
  let ?d = "CHR ''/'' # ?c"
  let ?h = "whist s @ [Lstat ''/'']"
  note oc = chain_name_ordinary [OF Suc.prems(1)]
  then have ne: "?c \<noteq> []" and ns: "no_sep ?c" by (simp_all add: ordinary_comp_def)
  have p: "wpath s = a @ [] @ ?c @ []" using Suc.prems(4) by simp
  have ws: "with_sep (wdest s) = ''/''"
    by (simp add: Suc.prems(6) with_sep_def IsPathSeparator_def)
  have cp: "checkPath ?E (whist s) uid gi 1 (with_sep (wdest s)) = (Inr (), ?h)"
    unfolding ws by (rule chain_check_root)
  have st: "walk_step ?E uid gi 1 ''/'' s = resolve ?E 1 ''/'' s (length a + length ([] :: string) + length ?c) ?d ?h"
    using walk_step_resolve [OF p Suc.prems(5) _ oc _ cp, of 1 "''/''"] ws
    by (simp add: is_seps_def at_boundary_def)
  have l: "lstat ?E ?h ?d = Inr (a_link 511 0 0)"
    using Suc.prems(1) k by (simp add: chain_env_def chain_fs_name)
  have ml: "Mode (a_link 511 0 0) AND ModeSymlink \<noteq> 0"
    by (simp add: a_link_def ModeSymlink_def)
  have fl: "walk_step ?E uid gi 1 ''/'' s
            = follow_link ?E 1 ''/'' s (length a + length ?c) ?d (?h @ [Lstat ?d])"
    using st by (simp add: resolve_link [OF l ml])
  have lt: "wpos s < length (wpath s)" using Suc.prems(4,5) ne by simp
  show ?case
  proof (cases "k = 256")
    case True
    then have "255 \<le> linksWalked s" using Suc.prems(7) by simp
    then have "walk_step ?E uid gi 1 ''/'' s = Fail TooManyLinks (?h @ [Lstat ?d])"
      using fl by (simp add: follow_link_too_many)
    from walk_loop_Fail [OF lt this] True k show ?thesis by simp
  next
    case False
    with Suc.prems(3,7) Suc.prems(1) have lk: "linksWalked s < 255" by simp
    have rl: "readlink ?E (?h @ [Lstat ?d]) ?d = Inr (chain_name (Suc k))"
      using Suc.prems(1) k by (simp add: chain_env_def chain_targets_name)
    have rel: "chain_name (Suc k) = [] \<or> \<not> IsPathSeparator (hd (chain_name (Suc k)))"
      by (simp add: chain_name_Suc IsPathSeparator_def)
    have lp: "link_parent 1 ''/'' ?d = ''/''"
      using link_parent_join [of "[]" ?c] ns by (simp add: join_path_def joined_single)
    let ?s' = "\<lparr>wpath = chain_name (Suc k) @ drop (length a + length ?c) (wpath s), wpos = 0,
                wdest = link_parent 1 ''/'' ?d, linksWalked = linksWalked s + 1,
                whist = (?h @ [Lstat ?d]) @ [Readlink ?d]\<rparr>"
    have c: "walk_step ?E uid gi 1 ''/'' s = Continue ?s'"
      using fl follow_link_relative [OF lk rl rel, of 1 "''/''" "length a + length ?c"] by simp
    have ih: "fst (walk_loop ?E uid gi Read 1 ''/'' ?s')
              = (if n \<le> 255 then Inr () else Inl TooManyLinks)"
    proof (rule Suc.hyps(1) [of "Suc k" ?s' "[]"])
      show "m = Suc n - Suc k" using Suc.hyps(2) by simp
      show "0 < Suc k" by simp
      show "Suc k \<le> Suc n" using k by simp
      show "Suc k \<le> 256" using False Suc.prems(3) by simp
      show "wpath ?s' = [] @ chain_name (Suc k)" using Suc.prems(4) by simp
      show "wpos ?s' = length ([] :: string)" by simp
      show "wdest ?s' = ''/''" using lp by simp
      show "linksWalked ?s' = Suc k - 1" using Suc.prems(1,7) by simp
    qed
    with walk_loop_Continue [OF lt c] show ?thesis by simp
  qed
qed

lemma chain_access:
  "fst (access (chain_env n) (Inr gi) uid Read ''/l'')
   = (if n \<le> 255 then Inr () else Inl TooManyLinks)"
proof -
  have a: "Abs (chain_env n) ''/l'' = Inr ''/l''" by (simp add: chain_env_def)
  have v: "volLen_of ''/l'' = 1" by (simp add: volLen_of_def IsPathSeparator_def)
  have t: "take 1 ''/l'' = ''/''" by simp
  show ?thesis
    unfolding access_walk [OF a] v t
    by (rule chain_walk [of 1 n _ "''/''"]) (simp_all add: initial_def v chain_name_def)
qed

section \<open>The calls made at a component\<close>

lemma walk_at_link:
  assumes "q \<noteq> []" and "IsPathSeparator (hd q)" and "walks_to E uid gi q s"
      and "wpath s = a @ xs @ c @ rest" and "wpos s = length a"
      and "is_seps xs" and "ordinary_comp c" and "at_boundary rest"
      and "checkPath E (whist s) uid gi 1 (with_sep (wdest s)) = (Inr (), h)"
      and "lstat E h (with_sep (wdest s) @ c) = Inr fi" and "Mode fi AND ModeSymlink \<noteq> 0"
  shows "walk_loop E uid gi mode 1 ''/'' s =
          (if 255 \<le> linksWalked s
           then (Inl TooManyLinks, h @ [Lstat (with_sep (wdest s) @ c)])
           else case readlink E (h @ [Lstat (with_sep (wdest s) @ c)]) (with_sep (wdest s) @ c) of
                  Inl e \<Rightarrow> (Inl (Underlying e),
                            h @ [Lstat (with_sep (wdest s) @ c), Readlink (with_sep (wdest s) @ c)])
                | Inr link \<Rightarrow>
                    walk_loop E uid gi mode 1 ''/''
                      \<lparr>wpath = link @ rest,
                       wpos = (if link \<noteq> [] \<and> IsPathSeparator (hd link) then 1 else 0),
                       wdest = (if link \<noteq> [] \<and> IsPathSeparator (hd link) then ''/'' else wdest s),
                       linksWalked = linksWalked s + 1,
                       whist = h @ [Lstat (with_sep (wdest s) @ c),
                                    Readlink (with_sep (wdest s) @ c)]\<rparr>)"
proof -
  let ?d = "with_sep (wdest s) @ c"
  let ?e = "length a + length xs + length c"
  let ?h = "h @ [Lstat ?d]"
  from assms(7) have c: "c \<noteq> []" "plain_comp c" by (simp_all add: ordinary_comp_def plain_comp_def)
  note m = component_more [OF assms(4,5) c(1)]
  have st: "walk_step E uid gi 1 ''/'' s = follow_link E 1 ''/'' s ?e ?d ?h"
    using walk_step_resolve [OF assms(4,5,6,7,8,9), of 1 "''/''"]
    by (simp add: resolve_link [OF assms(10,11)])
  have dk: "dest_ok (wdest s)" by (rule walks_to_dest_ok [OF assms(1,2,3)])
  have rest: "drop ?e (wpath s) = rest" using assms(4) by simp
  show ?thesis
  proof (cases "255 \<le> linksWalked s")
    case True
    then have "walk_step E uid gi 1 ''/'' s = Fail TooManyLinks ?h"
      using st by (simp add: follow_link_too_many)
    from walk_loop_Fail [OF m(1) this] True show ?thesis by simp
  next
    case False
    then have lt: "linksWalked s < 255" by simp
    show ?thesis
    proof (cases "readlink E ?h ?d")
      case (Inl e)
      from follow_link_error [OF lt Inl, of 1 "''/''" ?e] st
      have "walk_step E uid gi 1 ''/'' s = Fail (Underlying e) (?h @ [Readlink ?d])" by simp
      from walk_loop_Fail [OF m(1) this] False Inl show ?thesis by simp
    next
      case (Inr link)
      let ?s' = "\<lparr>wpath = link @ rest,
                   wpos = (if link \<noteq> [] \<and> IsPathSeparator (hd link) then 1 else 0),
                   wdest = (if link \<noteq> [] \<and> IsPathSeparator (hd link) then ''/'' else wdest s),
                   linksWalked = linksWalked s + 1,
                   whist = h @ [Lstat ?d, Readlink ?d]\<rparr>"
      have "walk_step E uid gi 1 ''/'' s = Continue ?s'"
      proof (cases "link \<noteq> [] \<and> IsPathSeparator (hd link)")
        case True
        then have "take 1 link = ''/''" by (cases link) (auto simp: IsPathSeparator_def)
        with follow_link_absolute [OF lt Inr, of 1 "''/''" ?e] True st rest
        show ?thesis by simp
      next
        case nabs: False
        then have "link = [] \<or> \<not> IsPathSeparator (hd link)" by blast
        from follow_link_relative [OF lt Inr this, of 1 "''/''" ?e] st rest nabs
             dest_ok_append [OF dk c(2)]
        show ?thesis by simp
      qed
      from walk_loop_Continue [OF m(1) this] False Inr show ?thesis by simp
    qed
  qed
qed

lemma access_at:
  assumes "Abs E p = Inr q" and "q \<noteq> []" and "IsPathSeparator (hd q)" and "walks_to E uid gi q s"
  shows "access E (Inr gi) uid mode p = walk_loop E uid gi mode 1 ''/'' s"
  using access_walks_to [OF assms(1,4)] volLen_abs [OF assms(2,3)] by simp

lemma with_sep_ne: "d \<noteq> [] \<Longrightarrow> with_sep d \<noteq> []"
  by (simp add: with_sep_def)

lemma dest_ok_ne: "dest_ok d \<Longrightarrow> d \<noteq> []"
  using join_path_abs by (auto simp: dest_ok_def)

lemma follow_link_hist:
  "(follow_link E volLen vol s en d h = Continue s' \<longrightarrow> prefix h (whist s'))
   \<and> (follow_link E volLen vol s en d h = Fail e h' \<longrightarrow> prefix h h')"
  unfolding follow_link_def Let_def os_Readlink_def
  by (auto split: sum.splits if_splits)

lemma resolve_hist:
  "(resolve E volLen vol s en d h = Continue s' \<longrightarrow> prefix h (whist s'))
   \<and> (resolve E volLen vol s en d h = Fail e h' \<longrightarrow> prefix h h')"
proof (cases "lstat E h d")
  case (Inl er)
  then show ?thesis by (auto simp: resolve_error)
next
  case (Inr fi)
  show ?thesis
  proof (cases "Mode fi AND ModeSymlink = 0")
    case True
    then show ?thesis by (auto simp: resolve_plain [OF Inr True])
  next
    case False
    from follow_link_hist [of E volLen vol s en d "h @ [Lstat d]" s' e h']
    show ?thesis
      unfolding resolve_link [OF Inr False] by (meson prefix_order.trans prefixI)
  qed
qed

lemma ordinary_hist:
  "(ordinary E uid gi volLen vol s en c = Continue s' \<longrightarrow>
      prefix (snd (checkPath E (whist s) uid gi 1 (with_sep (wdest s)))) (whist s'))
   \<and> (ordinary E uid gi volLen vol s en c = Fail e h' \<longrightarrow>
      prefix (snd (checkPath E (whist s) uid gi 1 (with_sep (wdest s)))) h')"
proof (cases "checkPath E (whist s) uid gi 1 (with_sep (wdest s))")
  case (Pair r h)
  show ?thesis
  proof (cases r)
    case (Inl er)
    with Pair show ?thesis by (auto simp: ordinary_eq)
  next
    case (Inr u)
    with Pair resolve_hist [of E volLen vol s en "with_sep (wdest s) @ c" h s' e h']
    show ?thesis by (simp add: ordinary_eq)
  qed
qed

lemma walk_step_hist:
  "(walk_step E uid gi volLen vol s = Continue s' \<longrightarrow> prefix (whist s) (whist s'))
   \<and> (walk_step E uid gi volLen vol s = Fail e h' \<longrightarrow> prefix (whist s) h')"
proof -
  have cp: "prefix (whist s) (snd (checkPath E (whist s) uid gi 1 (with_sep (wdest s))))"
    by (rule checkPath_hist_prefix)
  have o: "\<And>en c. (ordinary E uid gi volLen vol s en c = Continue s' \<longrightarrow> prefix (whist s) (whist s'))
   \<and> (ordinary E uid gi volLen vol s en c = Fail e h' \<longrightarrow> prefix (whist s) h')"
    using ordinary_hist [of E uid gi volLen vol s _ _ s' e h'] cp
    by (meson prefix_order.trans)
  show ?thesis
    unfolding walk_step_def Let_def using o by auto
qed

lemma walk_loop_hist: "prefix (whist s) (snd (walk_loop E uid gi mode volLen vol s))"
proof (induction E uid gi mode volLen vol s rule: walk_loop.induct)
  case (1 E uid gi mode volLen vol s)
  note cp = checkPath_hist_prefix [of "whist s" E uid gi mode "wdest s"]
  show ?case
  proof (cases "wpos s < length (wpath s)")
    case False
    with cp show ?thesis by (simp add: walk_loop_done)
  next
    case True
    show ?thesis
    proof (cases "walk_step E uid gi volLen vol s")
      case (Continue s')
      from walk_step_hist [of E uid gi volLen vol s s'] Continue 1 [OF True Continue]
      show ?thesis
        unfolding walk_loop_Continue [OF True Continue] by (meson prefix_order.trans)
    next
      case Break
      with cp show ?thesis by (simp add: walk_loop_Break)
    next
      case (Fail e h)
      with walk_step_hist [of E uid gi volLen vol s _ e h]
      show ?thesis by (simp add: walk_loop_Fail [OF True Fail])
    qed
  qed
qed

lemma checkPath_first_call:
  assumes "p \<noteq> []"
  shows "prefix (h @ [Lstat p]) (snd (checkPath E h uid gi mode p))"
proof (cases "lstat E h p")
  case (Inl e)
  with assms show ?thesis by (simp add: checkPath_Lstat_error)
next
  case (Inr f0)
  show ?thesis
  proof (cases "denied uid gi mode f0")
    case True
    with assms Inr show ?thesis by (simp add: checkPath_denied)
  next
    case nd: False
    show ?thesis
    proof (cases "LastIndexSep p")
      case None
      with assms Inr nd show ?thesis by (simp add: checkPath_NoSlash)
    next
      case (Some i)
      with assms Inr nd checkPath_hist_prefix [of "h @ [Lstat p]" E uid gi 1 "take i p"]
      show ?thesis by (simp add: checkPath_parent)
    qed
  qed
qed

lemma walk_at_component:
  assumes "wpath s = a @ xs @ c @ rest" and "wpos s = length a"
      and "is_seps xs" and "ordinary_comp c" and "at_boundary rest"
  shows "prefix (snd (checkPath E (whist s) uid gi 1 (with_sep (wdest s))))
           (snd (walk_loop E uid gi mode volLen vol s))"
    and "\<And>e h. checkPath E (whist s) uid gi 1 (with_sep (wdest s)) = (Inl e, h) \<Longrightarrow>
           walk_loop E uid gi mode volLen vol s = (Inl e, h)"
proof -
  from assms(4) have c: "c \<noteq> []" "no_sep c" "c \<noteq> ''.''" "c \<noteq> ''..''"
    by (auto simp: ordinary_comp_def)
  note m = component_more [OF assms(1,2) c(1)]
  let ?en = "length a + length xs + length c"
  have st: "walk_step E uid gi volLen vol s = ordinary E uid gi volLen vol s ?en c"
    using walk_step_component [OF assms(1,2,3) c(2,1) assms(5), of E uid gi volLen vol] c
    by (simp add: Let_def)
  show "prefix (snd (checkPath E (whist s) uid gi 1 (with_sep (wdest s))))
           (snd (walk_loop E uid gi mode volLen vol s))"
  proof (cases "walk_step E uid gi volLen vol s")
    case (Continue s')
    with ordinary_hist [of E uid gi volLen vol s ?en c s'] st
    have "prefix (snd (checkPath E (whist s) uid gi 1 (with_sep (wdest s)))) (whist s')" by simp
    with walk_loop_hist [of s' E uid gi mode volLen vol]
    show ?thesis
      unfolding walk_loop_Continue [OF m(1) Continue] by (meson prefix_order.trans)
  next
    case Break
    with st show ?thesis
      by (auto simp: ordinary_eq resolve_def follow_link_def Let_def split: prod.splits sum.splits if_splits)
  next
    case (Fail e h)
    with ordinary_hist [of E uid gi volLen vol s ?en c _ e h] st
    show ?thesis by (simp add: walk_loop_Fail [OF m(1) Fail])
  qed
  fix e h assume "checkPath E (whist s) uid gi 1 (with_sep (wdest s)) = (Inl e, h)"
  then have "walk_step E uid gi volLen vol s = Fail e h" using st by (simp add: ordinary_eq)
  from walk_loop_Fail [OF m(1) this]
  show "walk_loop E uid gi mode volLen vol s = (Inl e, h)" .
qed

section \<open>C4: the check of one component\<close>

text \<open>
  C4, as the code has it. For a principal whose uid is not 0 (and is a 32-bit uid, as the
  code compares it) and a requested mode among the bits 1, 2 and 4: the test of line 124
  lets the principal through exactly when the owner bits include the mode and the
  principal owns the file, or the group bits include it and the file's group is one of
  the principal's, or the other bits include it. When none holds at the path itself,
  \<open>checkPath\<close> returns a \<open>PermissionError\<close> with that path, the file's mode, uid and
  gid, the principal's uid and gids and the mode asked. Whatever \<open>PermissionError\<close> it
  returns is about a prefix of the path, carries what \<open>os.Lstat\<close> said of that prefix
  when it was asked, and wants the mode asked if it is the path itself and Execute if it
  is an ancestor.
\<close>

theorem checkPath_contract:
  assumes "0 < uid" and "uid < 2 ^ 32" and "mode \<le> 7"
  shows "((\<not> denied uid gid mode fi) = spec_granted uid gid mode fi)
     \<and> (path \<noteq> [] \<and> lstat E h path = Inr fi \<and> \<not> spec_granted uid gid mode fi \<longrightarrow>
          checkPath E h uid gid mode path =
            (Inl (PermissionDenied \<lparr>File = path, FileMode = Mode fi,
                    FileUid = uint (StUid fi), FileGid = uint (StGid fi),
                    Uid = uid, Gid = gid, WantMode = mode\<rparr>), h @ [Lstat path]))
     \<and> (\<forall>pe h'. checkPath E h uid gid mode path = (Inl (PermissionDenied pe), h') \<longrightarrow>
          Uid pe = uid \<and> Gid pe = gid \<and> prefix (File pe) path \<and> File pe \<noteq> []
          \<and> (\<exists>fi' hq. h' = hq @ [Lstat (File pe)] \<and> lstat E hq (File pe) = Inr fi'
                \<and> FileMode pe = Mode fi' \<and> FileUid pe = uint (StUid fi')
                \<and> FileGid pe = uint (StGid fi')
                \<and> \<not> spec_granted uid gid (WantMode pe) fi')
          \<and> (if File pe = path then WantMode pe = mode else WantMode pe = Execute))"
proof (intro conjI allI impI)
  show "(\<not> denied uid gid mode fi) = spec_granted uid gid mode fi"
    using assms by (rule denied_iff_spec)
next
  assume a: "path \<noteq> [] \<and> lstat E h path = Inr fi \<and> \<not> spec_granted uid gid mode fi"
  then have "denied uid gid mode fi" using denied_iff_spec [OF assms] by blast
  with a show "checkPath E h uid gid mode path =
            (Inl (PermissionDenied \<lparr>File = path, FileMode = Mode fi,
                    FileUid = uint (StUid fi), FileGid = uint (StGid fi),
                    Uid = uid, Gid = gid, WantMode = mode\<rparr>), h @ [Lstat path])"
    by (simp add: checkPath_denied mkPermissionError_def)
next
  fix pe h'
  assume "checkPath E h uid gid mode path = (Inl (PermissionDenied pe), h')"
  from checkPath_PermissionDenied [OF this]
  obtain fi' hq where d: "h' = hq @ [Lstat (File pe)]" "lstat E hq (File pe) = Inr fi'"
      "pe = mkPermissionError (File pe) fi' uid gid (WantMode pe)"
      "denied uid gid (WantMode pe) fi'" "prefix (File pe) path" "File pe \<noteq> []"
      "if File pe = path then WantMode pe = mode else WantMode pe = 1"
    by blast
  have f: "Uid pe = uid" "Gid pe = gid" "FileMode pe = Mode fi'" "FileUid pe = uint (StUid fi')"
      "FileGid pe = uint (StGid fi')"
    by (subst d(3), simp add: mkPermissionError_def)+
  have "WantMode pe \<le> 7" using d(7) assms(3) by (auto split: if_splits)
  with d(4) have ns: "\<not> spec_granted uid gid (WantMode pe) fi'"
    using denied_iff_spec [OF assms(1,2)] by blast
  show "Uid pe = uid" "Gid pe = gid" "prefix (File pe) path" "File pe \<noteq> []"
    using f d by auto
  show "\<exists>fi' hq. h' = hq @ [Lstat (File pe)] \<and> lstat E hq (File pe) = Inr fi'
                \<and> FileMode pe = Mode fi' \<and> FileUid pe = uint (StUid fi')
                \<and> FileGid pe = uint (StGid fi')
                \<and> \<not> spec_granted uid gid (WantMode pe) fi'"
    using d(1,2) f ns by blast
  show "if File pe = path then WantMode pe = mode else WantMode pe = Execute"
    using d(7) by (simp add: Execute_def)
qed

text \<open>
  The contract at work: uid 1001 asks to read a file of uid 1000 that others cannot read,
  then a readable file in a directory it cannot enter.
\<close>

theorem checkPath_contract_witness:
  "0 < (1001 :: int) \<and> (1001 :: int) < 2 ^ 32 \<and> Read \<le> 7
   \<and> lstat env_home [] ''/home/ann/notes'' = Inr (a_file 416 1000 1000)
   \<and> \<not> spec_granted 1001 [1001] Read (a_file 416 1000 1000)
   \<and> checkPath env_home [] 1001 [1001] Read ''/home/ann/notes'' =
       (Inl (PermissionDenied \<lparr>File = ''/home/ann/notes'', FileMode = 416, FileUid = 1000,
               FileGid = 1000, Uid = 1001, Gid = [1001], WantMode = Read\<rparr>),
        [Lstat ''/home/ann/notes''])
   \<and> checkPath env_home [] 1001 [1001] Read ''/home/ann/pub'' =
       (Inl (PermissionDenied \<lparr>File = ''/home/ann'', FileMode = ModeDir OR 448, FileUid = 1000,
               FileGid = 1000, Uid = 1001, Gid = [1001], WantMode = Execute\<rparr>),
        [Lstat ''/home/ann/pub'', Lstat ''/home/ann''])"
proof -
  have u: "0 < (1001 :: int)" "(1001 :: int) < 2 ^ 32" and m: "Read \<le> 7"
    by (simp_all add: Read_def)
  have l: "lstat env_home [] ''/home/ann/notes'' = Inr (a_file 416 1000 1000)"
    by (simp add: env_home_def static_env_def fs_home_def fs_of_def)
  have n: "\<not> spec_granted 1001 [1001] Read (a_file 416 1000 1000)"
    by code_simp
  have d: "checkPath env_home [] 1001 [1001] Read ''/home/ann/pub'' =
     (Inl (PermissionDenied \<lparr>File = ''/home/ann'', FileMode = ModeDir OR 448, FileUid = 1000,
             FileGid = 1000, Uid = 1001, Gid = [1001], WantMode = 1\<rparr>),
      [Lstat ''/home/ann/pub'', Lstat ''/home/ann''])"
    by code_simp
  note c1 = checkPath_contract [OF u m, of "[1001]" "a_file 416 1000 1000" "''/home/ann/notes''" env_home "[]"]
  note c2 = checkPath_contract [OF u m, of "[1001]" "a_file 416 1000 1000" "''/home/ann/pub''" env_home "[]"]
  from c1 l n have "checkPath env_home [] 1001 [1001] Read ''/home/ann/notes'' =
       (Inl (PermissionDenied \<lparr>File = ''/home/ann/notes'', FileMode = 416, FileUid = 1000,
               FileGid = 1000, Uid = 1001, Gid = [1001], WantMode = Read\<rparr>),
        [Lstat ''/home/ann/notes''])"
    by (simp add: a_file_def)
  moreover from c2 d have "WantMode \<lparr>File = ''/home/ann'', FileMode = ModeDir OR 448,
        FileUid = 1000, FileGid = 1000, Uid = 1001, Gid = [1001], WantMode = 1\<rparr> = Execute"
    by auto
  ultimately show ?thesis using u m l n d by simp
qed

text \<open>
  C4 as it was stated covers uid 0 too. Line 124 starts with \<open>uid != 0\<close>: uid 0 is
  let through a file of mode 0 that it does not own.
\<close>

theorem checkPath_contract_counterexample:
  "\<not> ((\<not> denied 0 [0] Read (a_file 0 1000 1000)) = spec_granted 0 [0] Read (a_file 0 1000 1000))"
  by code_simp

section \<open>C2: the superuser\<close>

text \<open>
  C2, as the code has it. The test of line 124 is skipped for uid 0: \<open>checkPath\<close> never
  returns a \<open>PermissionError\<close> to uid 0. The calls to \<open>os.Lstat\<close> are made all the
  same: the calls made for any principal are the first of those made for uid 0; a check
  that succeeds, for whatever uid, has asked about every path of \<open>checkPath_queries\<close>;
  and in a filesystem that does not change the check succeeds for uid 0 exactly when
  every one of these paths is there (and the path starts with a separator).
\<close>

theorem checkPath_superuser:
  "(\<forall>pe. fst (checkPath E h 0 gid mode p) \<noteq> Inl (PermissionDenied pe))
   \<and> prefix (snd (checkPath E h uid gid mode p)) (snd (checkPath E h 0 gid mode p))
   \<and> (fst (checkPath E h uid gid mode p) = Inr () \<longrightarrow>
        snd (checkPath E h uid gid mode p) = h @ map Lstat (checkPath_queries p))
   \<and> (fst (checkPath (static_env F L) h 0 gid mode p) = Inr ())
       = ((\<forall>q\<in>set (checkPath_queries p). \<exists>fi. F q = Inr fi) \<and> (p = [] \<or> IsPathSeparator (hd p)))"
  using checkPath_root_not_denied [of E h gid mode p]
        checkPath_root_more [of E h uid gid mode p]
        checkPath_ok_history [of E h uid gid mode p]
        checkPath_static_ok [of F L h 0 gid mode p]
  by (simp add: all_granted_root)

text \<open>uid 0 asks to write a file of uid 1000 with mode 0640: three calls, no denial.\<close>

theorem checkPath_superuser_witness:
  "fst (checkPath env_home [] 0 [0] Write ''/home/ann/notes'') = Inr ()
   \<and> snd (checkPath env_home [] 0 [0] Write ''/home/ann/notes'')
       = [Lstat ''/home/ann/notes'', Lstat ''/home/ann'', Lstat ''/home'']"
proof -
  have q: "checkPath_queries ''/home/ann/notes'' = [''/home/ann/notes'', ''/home/ann'', ''/home'']"
    by code_simp
  have e: "\<forall>q\<in>set (checkPath_queries ''/home/ann/notes''). \<exists>fi. fs_home q = Inr fi"
    unfolding q by (simp add: fs_home_def fs_of_def)
  note t = checkPath_superuser [of "static_env fs_home (links_of [])" "[]" "[0]" Write
             "''/home/ann/notes''" 0 fs_home "links_of []"]
  from t e have ok: "fst (checkPath env_home [] 0 [0] Write ''/home/ann/notes'') = Inr ()"
    by (simp add: env_home_def IsPathSeparator_def)
  with t have "snd (checkPath env_home [] 0 [0] Write ''/home/ann/notes'')
       = [] @ map Lstat (checkPath_queries ''/home/ann/notes'')"
    by (simp add: env_home_def)
  with ok q show ?thesis by simp
qed

text \<open>
  C2 as it was stated says that uid 0 is not a special case. It is: the same file, whose
  bits give uid 0 no write access by the owner, group and other test, passes.
\<close>

theorem checkPath_superuser_counterexample:
  "fst (checkPath env_home [] 0 [0] Write ''/home/ann/notes'') = Inr ()
   \<and> lstat env_home [] ''/home/ann/notes'' = Inr (a_file 416 1000 1000)
   \<and> \<not> spec_granted 0 [0] Write (a_file 416 1000 1000)"
  by code_simp

section \<open>C1: paths without links\<close>

text \<open>
  C1, as the code has it. The filesystem does not change and \<open>filepath.Abs\<close> gives the
  path back. The path is absolute and clean, with the components \<open>cs\<close>, none of them
  \<open>.\<close> or \<open>..\<close>; no prefix of it is a link; its ancestors, where they are there, are
  directories, and \<open>os.Lstat\<close> says the same of an ancestor with and without a trailing
  separator. The principal's uid is not 0 (and is a 32-bit uid) and the mode is among the
  bits 1, 2 and 4. Then \<open>access\<close> succeeds exactly when the final component is there and
  the principal has the mode asked on it, and every ancestor, the root included, is there
  and the principal has Execute on it. When it does not succeed it returns a
  \<open>PermissionError\<close> or the error of \<open>os.Lstat\<close>.
\<close>

theorem access_plain_path:
  assumes "\<forall>c\<in>set cs. ordinary_comp c"
      and "0 < uid" and "uid < 2 ^ 32" and "mode \<le> 7"
      and "\<forall>k fi. 0 < k \<and> k \<le> length cs \<and> F (join_path (take k cs)) = Inr fi
             \<longrightarrow> Mode fi AND ModeSymlink = 0"
      and "\<forall>k fi. 0 < k \<and> k < length cs \<and> F (join_path (take k cs)) = Inr fi
             \<longrightarrow> IsDir (Mode fi)"
      and "\<forall>k. 0 < k \<and> k < length cs \<longrightarrow>
             F (join_path (take k cs) @ ''/'') = F (join_path (take k cs))"
  shows "((fst (access (static_env F L) (Inr gi) uid mode (join_path cs)) = Inr ())
          = (has_mode F uid gi mode (join_path cs)
             \<and> (\<forall>k<length cs. has_mode F uid gi Execute (join_path (take k cs)))))
       \<and> (fst (access (static_env F L) (Inr gi) uid mode (join_path cs)) = Inr ()
          \<or> (\<exists>pe. fst (access (static_env F L) (Inr gi) uid mode (join_path cs))
                   = Inl (PermissionDenied pe))
          \<or> (\<exists>e. fst (access (static_env F L) (Inr gi) uid mode (join_path cs))
                   = Inl (Underlying e)))"
proof -
  have jp: "\<And>k. 0 < k \<Longrightarrow> k \<le> length cs \<Longrightarrow> join_path (take k cs) = joined (take k cs)"
    by (auto simp: join_path_def)
  have o: "\<forall>c\<in>set ([] @ cs). ordinary_comp c" using assms(1) by simp
  have nl: "\<forall>k fi. length ([] :: string list) < k \<and> k \<le> length ([] @ cs) \<and> F (joined (take k ([] @ cs))) = Inr fi
             \<longrightarrow> Mode fi AND ModeSymlink = 0"
  proof (intro allI impI)
    fix k fi
    assume a: "length ([] :: string list) < k \<and> k \<le> length ([] @ cs) \<and> F (joined (take k ([] @ cs))) = Inr fi"
    with jp [of k] have "0 < k \<and> k \<le> length cs \<and> F (join_path (take k cs)) = Inr fi" by simp
    with assms(5) show "Mode fi AND ModeSymlink = 0" by blast
  qed
  have dr: "\<forall>k fi. length ([] :: string list) < k \<and> k < length ([] @ cs) \<and> F (joined (take k ([] @ cs))) = Inr fi
             \<longrightarrow> IsDir (Mode fi)"
  proof (intro allI impI)
    fix k fi
    assume a: "length ([] :: string list) < k \<and> k < length ([] @ cs) \<and> F (joined (take k ([] @ cs))) = Inr fi"
    with jp [of k] have "0 < k \<and> k < length cs \<and> F (join_path (take k cs)) = Inr fi" by simp
    with assms(6) show "IsDir (Mode fi)" by blast
  qed
  have sl: "\<forall>k. 0 < k \<and> k < length ([] @ cs) \<longrightarrow>
             F (joined (take k ([] @ cs)) @ ''/'') = F (joined (take k ([] @ cs)))"
  proof (intro allI impI)
    fix k
    assume a: "0 < k \<and> k < length ([] @ cs)"
    with assms(7) have "F (join_path (take k cs) @ ''/'') = F (join_path (take k cs))" by simp
    with a jp [of k] show "F (joined (take k ([] @ cs)) @ ''/'') = F (joined (take k ([] @ cs)))"
      by simp
  qed
  have root: "join_path [] = ''/''" by (simp add: join_path_def)
  have acc: "fst (access (static_env F L) (Inr gi) uid mode (join_path cs))
             = plain_walk F uid gi mode ''/'' cs"
    using access_plain [OF assms(1)] no_links_prefixes [OF o nl] root by simp
  have x: "(1 :: filemode) \<le> 7" by simp
  have ok: "(plain_walk F uid gi mode ''/'' cs = Inr ())
     = ((\<forall>k. 0 < k \<and> k < length cs \<longrightarrow> has_mode F uid gi 1 (joined (take k cs)))
        \<and> has_mode F uid gi mode (join_path cs)
        \<and> (cs \<noteq> [] \<longrightarrow> has_mode F uid gi 1 ''/''))"
    using plain_walk_spec [OF o sl dr, of uid gi mode] root
    by (simp add: passes_has_mode [OF assms(2,3,4)] passes_has_mode [OF assms(2,3) x])
  have "(\<forall>k<length cs. has_mode F uid gi Execute (join_path (take k cs)))
        = ((\<forall>k. 0 < k \<and> k < length cs \<longrightarrow> has_mode F uid gi 1 (joined (take k cs)))
           \<and> (cs \<noteq> [] \<longrightarrow> has_mode F uid gi 1 ''/''))"
  proof (intro iffI conjI allI impI)
    fix k assume a: "\<forall>k<length cs. has_mode F uid gi Execute (join_path (take k cs))"
       and k: "0 < k \<and> k < length cs"
    with jp [of k] show "has_mode F uid gi 1 (joined (take k cs))"
      by (auto simp: Execute_def)
  next
    assume a: "\<forall>k<length cs. has_mode F uid gi Execute (join_path (take k cs))" and "cs \<noteq> []"
    then have "has_mode F uid gi Execute (join_path (take 0 cs))" by blast
    then show "has_mode F uid gi 1 ''/''" by (simp add: root Execute_def)
  next
    fix k assume a: "(\<forall>k. 0 < k \<and> k < length cs \<longrightarrow> has_mode F uid gi 1 (joined (take k cs)))
           \<and> (cs \<noteq> [] \<longrightarrow> has_mode F uid gi 1 ''/'')" and k: "k < length cs"
    show "has_mode F uid gi Execute (join_path (take k cs))"
    proof (cases "k = 0")
      case True
      with a k show ?thesis by (auto simp: root Execute_def)
    next
      case False
      with a k jp [of k] show ?thesis by (auto simp: Execute_def)
    qed
  qed
  with ok have iff: "(plain_walk F uid gi mode ''/'' cs = Inr ())
     = (has_mode F uid gi mode (join_path cs)
        \<and> (\<forall>k<length cs. has_mode F uid gi Execute (join_path (take k cs))))"
    by blast
  have "benign (plain_walk F uid gi mode ''/'' cs)"
    using plain_walk_benign [OF o dr, of uid gi mode] root by simp
  with iff show ?thesis unfolding acc benign_def by blast
qed

text \<open>uid 1000 reads its own file, through its own directory.\<close>

theorem access_plain_path_witness:
  "fst (access env_home (Inr [1000]) 1000 Read ''/home/ann/notes'') = Inr ()"
proof -
  let ?cs = "[''home'', ''ann'', ''notes'']"
  have jp: "join_path ?cs = ''/home/ann/notes''"
    by (simp add: join_path_def joined_def)
  have ks: "\<And>k::nat. 0 < k \<Longrightarrow> k \<le> 3 \<Longrightarrow> k = Suc 0 \<or> k = Suc (Suc 0) \<or> k = Suc (Suc (Suc 0))"
    by arith
  have pre: "join_path (take (Suc 0) ?cs) = ''/home''"
      "join_path (take (Suc (Suc 0)) ?cs) = ''/home/ann''"
      "join_path (take (Suc (Suc (Suc 0))) ?cs) = ''/home/ann/notes''"
      "join_path (take 0 ?cs) = ''/''"
    by (simp_all add: join_path_def joined_def)
  have F: "fs_home ''/'' = Inr (a_dir 493 0 0)"
      "fs_home ''/home'' = Inr (a_dir 493 0 0)"
      "fs_home ''/home/'' = Inr (a_dir 493 0 0)"
      "fs_home ''/home/ann'' = Inr (a_dir 448 1000 1000)"
      "fs_home ''/home/ann/'' = Inr (a_dir 448 1000 1000)"
      "fs_home ''/home/ann/notes'' = Inr (a_file 416 1000 1000)"
    by (simp_all add: fs_home_def fs_of_def)
  have kinds: "Mode (a_dir 493 0 0) AND ModeSymlink = 0" "Mode (a_dir 448 1000 1000) AND ModeSymlink = 0"
      "Mode (a_file 416 1000 1000) AND ModeSymlink = 0"
      "IsDir (Mode (a_dir 493 0 0))" "IsDir (Mode (a_dir 448 1000 1000))"
    by (simp_all add: a_dir_def a_file_def ModeDir_def ModeSymlink_def IsDir_def)
  have h1: "\<forall>c\<in>set ?cs. ordinary_comp c"
    by (simp add: ordinary_comp_def no_sep_def IsPathSeparator_def)
  have h2: "0 < (1000 :: int)" and h3: "(1000 :: int) < 2 ^ 32" and h4: "Read \<le> 7"
    by (simp_all add: Read_def)
  have h5: "\<forall>k fi. 0 < k \<and> k \<le> length ?cs \<and> fs_home (join_path (take k ?cs)) = Inr fi
             \<longrightarrow> Mode fi AND ModeSymlink = 0"
  proof (intro allI impI)
    fix k fi assume a: "0 < k \<and> k \<le> length ?cs \<and> fs_home (join_path (take k ?cs)) = Inr fi"
    with ks [of k] have "k = Suc 0 \<or> k = Suc (Suc 0) \<or> k = Suc (Suc (Suc 0))" by simp
    then show "Mode fi AND ModeSymlink = 0"
      using a pre F kinds by (elim disjE) auto
  qed
  have h6: "\<forall>k fi. 0 < k \<and> k < length ?cs \<and> fs_home (join_path (take k ?cs)) = Inr fi
             \<longrightarrow> IsDir (Mode fi)"
  proof (intro allI impI)
    fix k fi assume a: "0 < k \<and> k < length ?cs \<and> fs_home (join_path (take k ?cs)) = Inr fi"
    with ks [of k] have "k = Suc 0 \<or> k = Suc (Suc 0)" by auto
    then show "IsDir (Mode fi)"
      using a pre F kinds by (elim disjE) auto
  qed
  have h7: "\<forall>k. 0 < k \<and> k < length ?cs \<longrightarrow>
             fs_home (join_path (take k ?cs) @ ''/'') = fs_home (join_path (take k ?cs))"
  proof (intro allI impI)
    fix k assume a: "0 < k \<and> k < length ?cs"
    with ks [of k] have "k = Suc 0 \<or> k = Suc (Suc 0)" by auto
    then show "fs_home (join_path (take k ?cs) @ ''/'') = fs_home (join_path (take k ?cs))"
      using pre F by (elim disjE) auto
  qed
  have g: "has_mode fs_home 1000 [1000] Read ''/home/ann/notes''"
      "has_mode fs_home 1000 [1000] Execute ''/''"
      "has_mode fs_home 1000 [1000] Execute ''/home''"
      "has_mode fs_home 1000 [1000] Execute ''/home/ann''"
    unfolding has_mode_def F by code_simp+
  have anc: "\<forall>k<length ?cs. has_mode fs_home 1000 [1000] Execute (join_path (take k ?cs))"
  proof (intro allI impI)
    fix k assume "k < length ?cs"
    then have "k = 0 \<or> k = Suc 0 \<or> k = Suc (Suc 0)" by auto
    then show "has_mode fs_home 1000 [1000] Execute (join_path (take k ?cs))"
      using pre g by (elim disjE) auto
  qed
  from access_plain_path [OF h1 h2 h3 h4 h5 h6 h7, of "links_of []" "[1000]"] g(1) anc
  show ?thesis by (simp add: jp env_home_def)
qed

text \<open>
  C1 as it was stated covers uid 0 too. uid 0 has neither Execute on the directory (mode
  0700, owner 1000) nor Read on the file (mode 0640, owner 1000) by the owner, group and
  other rule, and \<open>access\<close> succeeds.
\<close>

theorem access_plain_path_counterexample:
  "fst (access env_home (Inr [0]) 0 Read ''/home/ann/notes'') = Inr ()
   \<and> fs_home ''/home/ann'' = Inr (a_dir 448 1000 1000)
   \<and> \<not> spec_granted 0 [0] Execute (a_dir 448 1000 1000)
   \<and> fs_home ''/home/ann/notes'' = Inr (a_file 416 1000 1000)
   \<and> \<not> spec_granted 0 [0] Read (a_file 416 1000 1000)"
  by code_simp

section \<open>C8: a file in the middle of the path\<close>

text \<open>
  C8. Wherever the walk of a path has got to: when the next component is an ordinary one,
  the check of \<open>dest[:l]\<close> passes, \<open>os.Lstat\<close> finds the component and it is neither a
  link nor a directory, and something of the path remains after it, \<open>access\<close> returns
  \<open>ENOTDIR\<close>; the last call made is the \<open>os.Lstat\<close> of that component.
\<close>

theorem not_a_directory:
  assumes "Abs E p = Inr q" and "walks_to E uid gi q s"
      and "wpath s = a @ xs @ c @ rest" and "wpos s = length a"
      and "is_seps xs" and "ordinary_comp c" and "at_boundary rest" and "rest \<noteq> []"
      and "checkPath E (whist s) uid gi 1 (with_sep (wdest s)) = (Inr (), h)"
      and "lstat E h (with_sep (wdest s) @ c) = Inr fi"
      and "Mode fi AND ModeSymlink = 0" and "\<not> IsDir (Mode fi)"
  shows "access E (Inr gi) uid mode p = (Inl ENOTDIR, h @ [Lstat (with_sep (wdest s) @ c)])"
proof -
  from assms(6) have c: "c \<noteq> []" by (simp add: ordinary_comp_def)
  note m = component_more [OF assms(3,4) c]
  have "walk_step E uid gi (volLen_of q) (take (volLen_of q) q) s
        = Fail ENOTDIR (h @ [Lstat (with_sep (wdest s) @ c)])"
    using walk_step_resolve [OF assms(3,4,5,6,7,9)] assms(8,12) m(2)
    by (simp add: resolve_plain [OF assms(10,11)])
  from walk_loop_Fail [OF m(1) this] show ?thesis
    using access_walks_to [OF assms(1,2)] by simp
qed

text \<open>A path that goes on after a regular file: the walk gets to the file in two steps.\<close>

theorem not_a_directory_witness:
  "access env_home (Inr [1000]) 1000 Read ''/home/ann/notes/x''
   = (Inl ENOTDIR,
      [Lstat ''/'', Lstat ''/home'', Lstat ''/home/'', Lstat ''/home'', Lstat ''/home/ann'',
       Lstat ''/home/ann/'', Lstat ''/home/ann'', Lstat ''/home'', Lstat ''/home/ann/notes''])"
proof -
  let ?q = "''/home/ann/notes/x''"
  let ?s1 = "\<lparr>wpath = ?q, wpos = 5, wdest = ''/home'', linksWalked = 0,
           whist = [Lstat ''/'', Lstat ''/home'']\<rparr>"
  let ?s2 = "\<lparr>wpath = ?q, wpos = 9, wdest = ''/home/ann'', linksWalked = 0,
           whist = [Lstat ''/'', Lstat ''/home'', Lstat ''/home/'', Lstat ''/home'', Lstat ''/home/ann'']\<rparr>"
  let ?h = "[Lstat ''/'', Lstat ''/home'', Lstat ''/home/'', Lstat ''/home'', Lstat ''/home/ann'',
       Lstat ''/home/ann/'', Lstat ''/home/ann'', Lstat ''/home'']"
  have v: "volLen_of ?q = 1" "take 1 ?q = ''/''"
    by (simp_all add: volLen_of_def IsPathSeparator_def)
  have a: "Abs env_home ?q = Inr ?q" by (simp add: env_home_def)
  have 1: "walk_step env_home 1000 [1000] 1 ''/'' (initial ?q) = Continue ?s1"
    by code_simp
  have 2: "walk_step env_home 1000 [1000] 1 ''/'' ?s1 = Continue ?s2"
    by code_simp
  have w: "walks_to env_home 1000 [1000] ?q ?s2"
    unfolding walks_to_def v
    by (rule reaches_step [OF reaches_step [OF reaches_refl _ 1] _ 2]) (simp_all add: initial_def v)
  have p: "wpath ?s2 = ''/home/ann'' @ ''/'' @ ''notes'' @ ''/x''" "wpos ?s2 = length ''/home/ann''"
    by simp_all
  have k: "is_seps ''/''" "ordinary_comp ''notes''" "at_boundary ''/x''" "''/x'' \<noteq> []"
    by (simp_all add: is_seps_def ordinary_comp_def no_sep_def at_boundary_def IsPathSeparator_def)
  have c: "checkPath env_home (whist ?s2) 1000 [1000] 1 (with_sep (wdest ?s2)) = (Inr (), ?h)"
    by code_simp
  have l: "lstat env_home ?h (with_sep (wdest ?s2) @ ''notes'') = Inr (a_file 416 1000 1000)"
    by code_simp
  have m: "Mode (a_file 416 1000 1000) AND ModeSymlink = 0" "\<not> IsDir (Mode (a_file 416 1000 1000))"
    by code_simp+
  from not_a_directory [OF a w p k c l m, of Read] show ?thesis
    by (simp add: with_sep_def IsPathSeparator_def)
qed

section \<open>C9: the walk ends\<close>

text \<open>
  C9. Whatever \<open>os.Lstat\<close> and \<open>os.Readlink\<close> answer, some number of runs of the loop
  body is enough for the loop to return what \<open>walk_loop\<close> returns. From one run to the
  next either the position in the same path moves forward (a component is consumed), or
  one more link has been followed and no more than 255 have. \<open>checkPath\<close> makes at most
  as many calls as its path has bytes.
\<close>

theorem walk_terminates:
  "(\<exists>n. walk_iter n E uid gi mode volLen vol s = Some (walk_loop E uid gi mode volLen vol s))
   \<and> (wpos s < length (wpath s) \<and> walk_step E uid gi volLen vol s = Continue s' \<longrightarrow>
        (linksWalked s' = linksWalked s \<and> wpath s' = wpath s \<and> wpos s < wpos s'
         \<and> wpos s' \<le> length (wpath s))
        \<or> (linksWalked s' = linksWalked s + 1 \<and> linksWalked s' \<le> 255))
   \<and> length (snd (checkPath E h uid gi mode p)) \<le> length h + length p"
  using walk_iter_enough [of E uid gi mode volLen vol s]
        walk_step_progress [of s E uid gi volLen vol s']
        checkPath_calls [of E h uid gi mode p]
  by blast

text \<open>The first run of the body on \<open>/home/ann/notes\<close> moves from position 1 to position 5.\<close>

theorem walk_terminates_witness:
  "wpos (initial ''/home/ann/notes'') < 5 \<and> (5 :: nat) \<le> length ''/home/ann/notes''"
proof -
  let ?q = "''/home/ann/notes''"
  let ?s1 = "\<lparr>wpath = ?q, wpos = 5, wdest = ''/home'', linksWalked = 0,
           whist = [Lstat ''/'', Lstat ''/home'']\<rparr>"
  have 1: "walk_step env_home 1000 [1000] 1 ''/'' (initial ?q) = Continue ?s1"
    by code_simp
  have 2: "wpos (initial ?q) < length (wpath (initial ?q))"
    by (simp add: initial_def volLen_of_def)
  from walk_terminates [of env_home 1000 "[1000]" Read 1 "''/''" "initial ?q" ?s1 "[]" ?q] 1 2
  show ?thesis by (simp add: initial_def)
qed

section \<open>C6: following a link\<close>

text \<open>
  C6. Wherever the walk of an absolute path has got to: when the next component is an
  ordinary one, the check of \<open>dest[:l]\<close> passes and \<open>os.Lstat\<close> says the component is
  a link, then \<open>access\<close> returns the too-many-links error if 255 links have been followed
  already, the error of \<open>os.Readlink\<close> if it fails, and otherwise what the loop returns
  from the state where the path is the link target followed by what remained, the
  resolved prefix is the root for an absolute target and what it was before the
  component was appended for a relative one, and one more link is counted. No call
  follows more than 255 links, and a call that returns the too-many-links error has
  followed exactly 255. On the chain of \<open>n\<close> links \<open>access\<close> succeeds when \<open>n\<close> is at
  most 255 and returns the too-many-links error when it is more.
\<close>

theorem symlink_followed:
  assumes "Abs E p = Inr q" and "q \<noteq> []" and "IsPathSeparator (hd q)"
      and "walks_to E uid gi q s"
      and "wpath s = a @ xs @ c @ rest" and "wpos s = length a"
      and "is_seps xs" and "ordinary_comp c" and "at_boundary rest"
      and "checkPath E (whist s) uid gi 1 (with_sep (wdest s)) = (Inr (), h)"
      and "lstat E h (with_sep (wdest s) @ c) = Inr fi" and "Mode fi AND ModeSymlink \<noteq> 0"
  shows "access E (Inr gi) uid mode p =
          (if 255 \<le> linksWalked s
           then (Inl TooManyLinks, h @ [Lstat (with_sep (wdest s) @ c)])
           else case readlink E (h @ [Lstat (with_sep (wdest s) @ c)]) (with_sep (wdest s) @ c) of
                  Inl e \<Rightarrow> (Inl (Underlying e),
                            h @ [Lstat (with_sep (wdest s) @ c), Readlink (with_sep (wdest s) @ c)])
                | Inr link \<Rightarrow>
                    walk_loop E uid gi mode 1 ''/''
                      \<lparr>wpath = link @ rest,
                       wpos = (if link \<noteq> [] \<and> IsPathSeparator (hd link) then 1 else 0),
                       wdest = (if link \<noteq> [] \<and> IsPathSeparator (hd link) then ''/'' else wdest s),
                       linksWalked = linksWalked s + 1,
                       whist = h @ [Lstat (with_sep (wdest s) @ c),
                                    Readlink (with_sep (wdest s) @ c)]\<rparr>)
       \<and> readlinks (snd (access E (Inr gi) uid mode p)) \<le> 255
       \<and> (fst (access E (Inr gi) uid mode p) = Inl TooManyLinks \<longrightarrow>
            readlinks (snd (access E (Inr gi) uid mode p)) = 255)
       \<and> fst (access (chain_env n) (Inr gj) u Read ''/l'')
          = (if n \<le> 255 then Inr () else Inl TooManyLinks)"
proof -
  let ?d = "with_sep (wdest s) @ c"
  let ?e = "length a + length xs + length c"
  let ?h = "h @ [Lstat ?d]"
  note v = volLen_abs [OF assms(2,3)]
  from assms(8) have c: "c \<noteq> []" "plain_comp c" by (simp_all add: ordinary_comp_def plain_comp_def)
  note m = component_more [OF assms(5,6) c(1)]
  have st: "walk_step E uid gi 1 ''/'' s = follow_link E 1 ''/'' s ?e ?d ?h"
    using walk_step_resolve [OF assms(5,6,7,8,9,10), of 1 "''/''"]
    by (simp add: resolve_link [OF assms(11,12)])
  have dk: "dest_ok (wdest s)" by (rule walks_to_dest_ok [OF assms(2,3,4)])
  have rest: "drop ?e (wpath s) = rest" using assms(5) by simp
  have acc: "access E (Inr gi) uid mode p = walk_loop E uid gi mode 1 ''/'' s"
    using access_walks_to [OF assms(1,4)] v by simp
  have one: "walk_loop E uid gi mode 1 ''/'' s =
          (if 255 \<le> linksWalked s then (Inl TooManyLinks, ?h)
           else case readlink E ?h ?d of
                  Inl e \<Rightarrow> (Inl (Underlying e), h @ [Lstat ?d, Readlink ?d])
                | Inr link \<Rightarrow>
                    walk_loop E uid gi mode 1 ''/''
                      \<lparr>wpath = link @ rest,
                       wpos = (if link \<noteq> [] \<and> IsPathSeparator (hd link) then 1 else 0),
                       wdest = (if link \<noteq> [] \<and> IsPathSeparator (hd link) then ''/'' else wdest s),
                       linksWalked = linksWalked s + 1,
                       whist = h @ [Lstat ?d, Readlink ?d]\<rparr>)"
  proof (cases "255 \<le> linksWalked s")
    case True
    then have "walk_step E uid gi 1 ''/'' s = Fail TooManyLinks ?h"
      using st by (simp add: follow_link_too_many)
    from walk_loop_Fail [OF m(1) this] True show ?thesis by simp
  next
    case False
    then have lt: "linksWalked s < 255" by simp
    show ?thesis
    proof (cases "readlink E ?h ?d")
      case (Inl e)
      from follow_link_error [OF lt Inl, of 1 "''/''" ?e] st
      have "walk_step E uid gi 1 ''/'' s = Fail (Underlying e) (?h @ [Readlink ?d])" by simp
      from walk_loop_Fail [OF m(1) this] False Inl show ?thesis by simp
    next
      case (Inr link)
      let ?s' = "\<lparr>wpath = link @ rest,
                   wpos = (if link \<noteq> [] \<and> IsPathSeparator (hd link) then 1 else 0),
                   wdest = (if link \<noteq> [] \<and> IsPathSeparator (hd link) then ''/'' else wdest s),
                   linksWalked = linksWalked s + 1,
                   whist = h @ [Lstat ?d, Readlink ?d]\<rparr>"
      have "walk_step E uid gi 1 ''/'' s = Continue ?s'"
      proof (cases "link \<noteq> [] \<and> IsPathSeparator (hd link)")
        case True
        then have "take 1 link = ''/''" by (cases link) (auto simp: IsPathSeparator_def)
        with follow_link_absolute [OF lt Inr, of 1 "''/''" ?e] True st rest
        show ?thesis by simp
      next
        case nabs: False
        then have "link = [] \<or> \<not> IsPathSeparator (hd link)" by blast
        from follow_link_relative [OF lt Inr this, of 1 "''/''" ?e] st rest nabs
             dest_ok_append [OF dk c(2)]
        show ?thesis by simp
      qed
      from walk_loop_Continue [OF m(1) this] False Inr show ?thesis by simp
    qed
  qed
  from one access_budget [of E "Inr gi" uid mode p] chain_access [of n gj u]
  show ?thesis unfolding acc [symmetric] by blast
qed

text \<open>The chain of 256 links: the first link is followed, the 256th is not.\<close>

theorem symlink_followed_witness:
  "access (chain_env 256) (Inr [1000]) 1000 Read ''/l''
     = walk_loop (chain_env 256) 1000 [1000] Read 1 ''/''
         \<lparr>wpath = ''ll'', wpos = 0, wdest = ''/'', linksWalked = 1,
          whist = [Lstat ''/'', Lstat ''/l'', Readlink ''/l'']\<rparr>
   \<and> fst (access (chain_env 256) (Inr [1000]) 1000 Read ''/l'') = Inl TooManyLinks
   \<and> readlinks (snd (access (chain_env 256) (Inr [1000]) 1000 Read ''/l'')) = 255"
proof -
  let ?E = "chain_env 256"
  let ?q = "''/l''"
  have v: "volLen_of ?q = 1" "take 1 ?q = ''/''"
    by (simp_all add: volLen_of_def IsPathSeparator_def)
  have a: "Abs ?E ?q = Inr ?q" by (simp add: chain_env_def)
  have q: "?q \<noteq> []" "IsPathSeparator (hd ?q)" by (simp_all add: IsPathSeparator_def)
  have w: "walks_to ?E 1000 [1000] ?q (initial ?q)"
    unfolding walks_to_def by (rule reaches_refl)
  have p: "wpath (initial ?q) = ''/'' @ [] @ ''l'' @ []" "wpos (initial ?q) = length ''/''"
    by (simp_all add: initial_def v)
  have k: "is_seps []" "ordinary_comp ''l''" "at_boundary []"
    by (simp_all add: is_seps_def ordinary_comp_def no_sep_def at_boundary_def IsPathSeparator_def)
  have c: "checkPath ?E (whist (initial ?q)) 1000 [1000] 1 (with_sep (wdest (initial ?q)))
           = (Inr (), [Lstat ''/''])"
    using chain_check_root [of 256 "[]" 1000 "[1000]"]
    by (simp add: initial_def v with_sep_def IsPathSeparator_def)
  have l: "lstat ?E [Lstat ''/''] (with_sep (wdest (initial ?q)) @ ''l'') = Inr (a_link 511 0 0)"
    using chain_fs_name [of 1 256]
    by (simp add: initial_def v with_sep_def IsPathSeparator_def chain_env_def chain_name_def)
  have m: "Mode (a_link 511 0 0) AND ModeSymlink \<noteq> 0"
    by (simp add: a_link_def ModeSymlink_def)
  have r: "readlink ?E [Lstat ''/'', Lstat ''/l''] ''/l'' = Inr ''ll''"
    using chain_targets_name [of 1 256] by (simp add: chain_env_def chain_name_def)
  note t = symlink_followed [OF a q w p k c l m, of Read 256 "[1000]" 1000]
  have 1: "access ?E (Inr [1000]) 1000 Read ?q
     = walk_loop ?E 1000 [1000] Read 1 ''/''
         \<lparr>wpath = ''ll'', wpos = 0, wdest = ''/'', linksWalked = 1,
          whist = [Lstat ''/'', Lstat ''/l'', Readlink ''/l'']\<rparr>"
    using t [THEN conjunct1] r
    by (simp add: initial_def v with_sep_def IsPathSeparator_def)
  have 2: "fst (access ?E (Inr [1000]) 1000 Read ?q) = Inl TooManyLinks"
    using t [THEN conjunct2, THEN conjunct2, THEN conjunct2] by simp
  have 3: "readlinks (snd (access ?E (Inr [1000]) 1000 Read ?q)) = 255"
    using t [THEN conjunct2, THEN conjunct2, THEN conjunct1] 2 by blast
  from 1 2 3 show ?thesis by blast
qed

section \<open>C5: a resolved prefix with \<open>..\<close> in it\<close>

text \<open>
  C5 says that the resolved prefix is free of \<open>..\<close> wherever a permission check is
  made on it, and that \<open>..\<close> at the root changes nothing; the comment above
  \<open>checkPath\<close> (line 114) asks the same of its path. The code does not keep to it. The
  backward scan of line 199 stops above the leading separator, so a prefix with a single
  component, or the root, has "no slash" for the test of line 204 and \<open>..\<close> is appended
  to it. Here \<open>/var/run\<close> is a link to \<open>../run\<close>: the walk gets to the resolved prefix
  \<open>/var/..\<close>, and \<open>checkPath\<close> is then run on \<open>/var/../\<close> and on \<open>/var/../run\<close>.
  At the root, \<open>..\<close> gives \<open>/..\<close>.
\<close>

theorem dotdot_kept:
  "access env_links (Inr [1000]) 1000 Read ''/var/run''
     = (Inr (),
        [Lstat ''/'', Lstat ''/var'', Lstat ''/var/'', Lstat ''/var'', Lstat ''/var/run'',
         Readlink ''/var/run'', Lstat ''/var/../'', Lstat ''/var/..'', Lstat ''/var'',
         Lstat ''/var/../run'', Lstat ''/var/../run'', Lstat ''/var/..'', Lstat ''/var''])
   \<and> walks_to env_links 1000 [1000] ''/var/run''
        \<lparr>wpath = ''../run'', wpos = 2, wdest = ''/var/..'', linksWalked = 1,
         whist = [Lstat ''/'', Lstat ''/var'', Lstat ''/var/'', Lstat ''/var'',
                  Lstat ''/var/run'', Readlink ''/var/run'']\<rparr>
   \<and> dotdot_dest 1 ''/'' = ''/..''"
proof -
  let ?q = "''/var/run''"
  let ?h = "[Lstat ''/'', Lstat ''/var'', Lstat ''/var/'', Lstat ''/var'',
                  Lstat ''/var/run'', Readlink ''/var/run'']"
  let ?s1 = "\<lparr>wpath = ?q, wpos = 4, wdest = ''/var'', linksWalked = 0,
              whist = [Lstat ''/'', Lstat ''/var'']\<rparr>"
  let ?s2 = "\<lparr>wpath = ''../run'', wpos = 0, wdest = ''/var'', linksWalked = 1, whist = ?h\<rparr>"
  let ?s3 = "\<lparr>wpath = ''../run'', wpos = 2, wdest = ''/var/..'', linksWalked = 1, whist = ?h\<rparr>"
  have v: "volLen_of ?q = 1" "take 1 ?q = ''/''"
    by (simp_all add: volLen_of_def IsPathSeparator_def)
  have 1: "walk_step env_links 1000 [1000] 1 ''/'' (initial ?q) = Continue ?s1"
    by code_simp
  have 2: "walk_step env_links 1000 [1000] 1 ''/'' ?s1 = Continue ?s2"
    by code_simp
  have 3: "walk_step env_links 1000 [1000] 1 ''/'' ?s2 = Continue ?s3"
    by code_simp
  have w: "walks_to env_links 1000 [1000] ?q ?s3"
    unfolding walks_to_def v
    by (rule reaches_step [OF reaches_step [OF reaches_step [OF reaches_refl _ 1] _ 2] _ 3])
       (simp_all add: initial_def v)
  have a: "access env_links (Inr [1000]) 1000 Read ''/var/run''
     = (Inr (),
        [Lstat ''/'', Lstat ''/var'', Lstat ''/var/'', Lstat ''/var'', Lstat ''/var/run'',
         Readlink ''/var/run'', Lstat ''/var/../'', Lstat ''/var/..'', Lstat ''/var'',
         Lstat ''/var/../run'', Lstat ''/var/../run'', Lstat ''/var/..'', Lstat ''/var''])"
    by code_simp
  have d: "dotdot_dest 1 ''/'' = ''/..''"
    by code_simp
  from a w d show ?thesis by blast
qed

section \<open>C7: a component followed by \<open>..\<close>\<close>

text \<open>
  C7, as the code has it. Wherever the walk of an absolute path has got to, with a
  resolved prefix that is not the root: when the next component is an ordinary one that
  is no link, followed by \<open>..\<close>, and the check of \<open>dest[:l]\<close> passes, the component is
  asked of \<open>os.Lstat\<close>. If that fails \<open>access\<close> returns its error, if the component is
  not a directory it returns \<open>ENOTDIR\<close>, and if it is a directory the loop goes on
  after the \<open>..\<close> with the resolved prefix it had before: the permission bits of the
  component play no part, whatever they are.
\<close>

theorem dotdot_cancels:
  assumes "Abs E p = Inr q" and "q \<noteq> []" and "IsPathSeparator (hd q)"
      and "walks_to E uid gi q s"
      and "wpath s = a @ xs @ c @ ys @ ''..'' @ rest" and "wpos s = length a"
      and "is_seps xs" and "ordinary_comp c" and "is_seps ys" and "ys \<noteq> []"
      and "at_boundary rest"
      and "wdest s \<noteq> ''/''"
      and "checkPath E (whist s) uid gi 1 (with_sep (wdest s)) = (Inr (), h)"
      and "case lstat E h (with_sep (wdest s) @ c) of
             Inl e \<Rightarrow> True | Inr fi \<Rightarrow> Mode fi AND ModeSymlink = 0"
  shows "access E (Inr gi) uid mode p =
           (case lstat E h (with_sep (wdest s) @ c) of
              Inl e \<Rightarrow> (Inl (Underlying e), h @ [Lstat (with_sep (wdest s) @ c)])
            | Inr fi \<Rightarrow>
                if IsDir (Mode fi)
                then walk_loop E uid gi mode 1 ''/''
                       (s\<lparr>wpos := length a + length xs + length c + length ys + 2,
                          whist := h @ [Lstat (with_sep (wdest s) @ c)]\<rparr>)
                else (Inl ENOTDIR, h @ [Lstat (with_sep (wdest s) @ c)]))"
proof -
  let ?d = "with_sep (wdest s) @ c"
  let ?e = "length a + length xs + length c"
  let ?h = "h @ [Lstat ?d]"
  note v = volLen_abs [OF assms(2,3)]
  from assms(8) have c: "c \<noteq> []" by (simp add: ordinary_comp_def)
  have p: "wpath s = a @ xs @ c @ (ys @ ''..'' @ rest)" using assms(5) by simp
  note b = is_seps_boundary [OF assms(9,10), of "''..'' @ rest"]
  note m = component_more [OF p assms(6) c]
  have more: "?e < length (wpath s)" using m(2) assms(10) by simp
  have st: "walk_step E uid gi 1 ''/'' s = resolve E 1 ''/'' s ?e ?d h"
    by (rule walk_step_resolve [OF p assms(6,7,8) b assms(13)])
  have acc: "access E (Inr gi) uid mode p = walk_loop E uid gi mode 1 ''/'' s"
    using access_walks_to [OF assms(1,4)] v by simp
  have dk: "dest_ok (wdest s)" by (rule walks_to_dest_ok [OF assms(2,3,4)])
  show ?thesis
  proof (cases "lstat E h ?d")
    case (Inl e)
    then have "walk_step E uid gi 1 ''/'' s = Fail (Underlying e) ?h"
      using st by (simp add: resolve_error)
    from walk_loop_Fail [OF m(1) this] Inl acc show ?thesis by simp
  next
    case (Inr fi)
    with assms(14) have nl: "Mode fi AND ModeSymlink = 0" by simp
    show ?thesis
    proof (cases "IsDir (Mode fi)")
      case False
      then have "walk_step E uid gi 1 ''/'' s = Fail ENOTDIR ?h"
        using st more by (simp add: resolve_plain [OF Inr nl])
      from walk_loop_Fail [OF m(1) this] Inr False acc show ?thesis by simp
    next
      case True
      let ?s1 = "s\<lparr>wpos := ?e, wdest := ?d, whist := ?h\<rparr>"
      have c1: "walk_step E uid gi 1 ''/'' s = Continue ?s1"
        using st True by (simp add: resolve_plain [OF Inr nl])
      have p1: "wpath ?s1 = (a @ xs @ c) @ ys @ ''..'' @ rest" "wpos ?s1 = length (a @ xs @ c)"
        using assms(5) by simp_all
      have dd: "no_sep ''..''" "''..'' \<noteq> []"
        by (simp_all add: no_sep_def IsPathSeparator_def)
      have lt1: "wpos ?s1 < length (wpath ?s1)" using assms(5) by simp
      have c2: "walk_step E uid gi 1 ''/'' ?s1
                = Continue (?s1\<lparr>wpos := length (a @ xs @ c) + length ys + length ''..'',
                                 wdest := dotdot_dest 1 (wdest ?s1)\<rparr>)"
        using walk_step_component [OF p1 assms(9) dd assms(11), of E uid gi 1 "''/''"]
        by (simp add: Let_def)
      have bk: "dotdot_dest 1 (wdest ?s1) = wdest s"
        using dotdot_dest_back [OF dk assms(12,8)] by simp
      have s2: "?s1\<lparr>wpos := length (a @ xs @ c) + length ys + length ''..'',
                     wdest := dotdot_dest 1 (wdest ?s1)\<rparr>
                = s\<lparr>wpos := length a + length xs + length c + length ys + 2, whist := ?h\<rparr>"
        unfolding bk by simp
      from walk_loop_Continue [OF m(1) c1] walk_loop_Continue [OF lt1 c2] s2 Inr True acc
      show ?thesis by simp
    qed
  qed
qed

text \<open>
  \<open>/tmp\<close> points to \<open>data/tmp/../v2\<close>, and uid 1000 cannot enter \<open>/data/tmp\<close>: the
  directory is asked of \<open>os.Lstat\<close>, the walk goes on from \<open>/data\<close>, and the call succeeds.
\<close>

theorem dotdot_cancels_witness:
  "access env_links (Inr [1000]) 1000 Read ''/tmp''
     = walk_loop env_links 1000 [1000] Read 1 ''/''
         \<lparr>wpath = ''data/tmp/../v2'', wpos = 11, wdest = ''/data'', linksWalked = 1,
          whist = [Lstat ''/'', Lstat ''/tmp'', Readlink ''/tmp'', Lstat ''/'', Lstat ''/data'',
                   Lstat ''/data/'', Lstat ''/data'', Lstat ''/data/tmp'']\<rparr>
   \<and> fs_links ''/data/tmp'' = Inr (a_dir 448 1001 1001)
   \<and> denied 1000 [1000] Execute (a_dir 448 1001 1001)
   \<and> fst (access env_links (Inr [1000]) 1000 Read ''/tmp'') = Inr ()"
proof -
  let ?E = "env_links"
  let ?q = "''/tmp''"
  let ?h1 = "[Lstat ''/'', Lstat ''/tmp'', Readlink ''/tmp'']"
  let ?h2 = "[Lstat ''/'', Lstat ''/tmp'', Readlink ''/tmp'', Lstat ''/'', Lstat ''/data'']"
  let ?h = "[Lstat ''/'', Lstat ''/tmp'', Readlink ''/tmp'', Lstat ''/'', Lstat ''/data'',
             Lstat ''/data/'', Lstat ''/data'']"
  let ?s1 = "\<lparr>wpath = ''data/tmp/../v2'', wpos = 0, wdest = ''/'', linksWalked = 1, whist = ?h1\<rparr>"
  let ?s2 = "\<lparr>wpath = ''data/tmp/../v2'', wpos = 4, wdest = ''/data'', linksWalked = 1, whist = ?h2\<rparr>"
  have v: "volLen_of ?q = 1" "take 1 ?q = ''/''"
    by (simp_all add: volLen_of_def IsPathSeparator_def)
  have a: "Abs ?E ?q = Inr ?q" by (simp add: env_links_def)
  have q: "?q \<noteq> []" "IsPathSeparator (hd ?q)" by (simp_all add: IsPathSeparator_def)
  have 1: "walk_step ?E 1000 [1000] 1 ''/'' (initial ?q) = Continue ?s1" by code_simp
  have 2: "walk_step ?E 1000 [1000] 1 ''/'' ?s1 = Continue ?s2" by code_simp
  have w: "walks_to ?E 1000 [1000] ?q ?s2"
    unfolding walks_to_def v
    by (rule reaches_step [OF reaches_step [OF reaches_refl _ 1] _ 2]) (simp_all add: initial_def v)
  have p: "wpath ?s2 = ''data'' @ ''/'' @ ''tmp'' @ ''/'' @ ''..'' @ ''/v2''"
      "wpos ?s2 = length ''data''" by simp_all
  have k: "is_seps ''/''" "ordinary_comp ''tmp''" "is_seps ''/''" "''/'' \<noteq> []" "at_boundary ''/v2''"
      "wdest ?s2 \<noteq> ''/''"
    by (simp_all add: is_seps_def ordinary_comp_def no_sep_def at_boundary_def IsPathSeparator_def)
  have c: "checkPath ?E (whist ?s2) 1000 [1000] 1 (with_sep (wdest ?s2)) = (Inr (), ?h)"
    by code_simp
  have l: "lstat ?E ?h (with_sep (wdest ?s2) @ ''tmp'') = Inr (a_dir 448 1001 1001)"
    by code_simp
  have n: "case lstat ?E ?h (with_sep (wdest ?s2) @ ''tmp'') of
             Inl e \<Rightarrow> True | Inr fi \<Rightarrow> Mode fi AND ModeSymlink = 0"
    unfolding l by code_simp
  have d: "IsDir (Mode (a_dir 448 1001 1001))" by code_simp
  have f: "fs_links ''/data/tmp'' = Inr (a_dir 448 1001 1001)"
    by (simp add: fs_links_def fs_of_def)
  have x: "denied 1000 [1000] Execute (a_dir 448 1001 1001)" by code_simp
  have r: "fst (access ?E (Inr [1000]) 1000 Read ?q) = Inr ()" by code_simp
  from dotdot_cancels [OF a q w p k c n, of Read] l d
  have "access ?E (Inr [1000]) 1000 Read ?q
     = walk_loop ?E 1000 [1000] Read 1 ''/''
         \<lparr>wpath = ''data/tmp/../v2'', wpos = 11, wdest = ''/data'', linksWalked = 1,
          whist = ?h @ [Lstat ''/data/tmp'']\<rparr>"
    by (simp add: with_sep_def IsPathSeparator_def eval_nat_numeral)
  with f x r show ?thesis by simp
qed

text \<open>
  C7 as it was stated says that no metadata query is made on the component that \<open>..\<close>
  cancels. \<open>/lost\<close> points to \<open>data/gone/../v2\<close> and \<open>/data/gone\<close> is not there: the
  last call is the \<open>os.Lstat\<close> of \<open>/data/gone\<close>, and its error is what \<open>access\<close> returns.
\<close>

theorem dotdot_cancels_counterexample:
  "targets ''/lost'' = Inr ''data/gone/../v2''
   \<and> access env_links (Inr [1000]) 1000 Read ''/lost''
       = (Inl (Underlying 2),
          [Lstat ''/'', Lstat ''/lost'', Readlink ''/lost'', Lstat ''/'', Lstat ''/data'',
           Lstat ''/data/'', Lstat ''/data'', Lstat ''/data/gone''])"
  by code_simp

section \<open>C3: what the check of a component is made on\<close>

text \<open>
  C3, as the code has it. Wherever the walk of an absolute path has got to, when the next
  component is an ordinary one: the next call is the \<open>os.Lstat\<close> of \<open>dest[:l]\<close>, the
  resolved prefix as it stood before the component was appended, with its separator; for
  the first component that is the root. If the principal is refused Execute on it,
  \<open>access\<close> returns the \<open>PermissionError\<close> of that prefix with Execute as the mode
  wanted. If \<open>checkPath\<close> passes and the component is a link, what \<open>access\<close> returns
  depends on the number of links followed and on \<open>os.Readlink\<close> only: the mode and
  the owner of the link play no part.
\<close>

theorem component_check:
  assumes "Abs E p = Inr q" and "q \<noteq> []" and "IsPathSeparator (hd q)"
      and "walks_to E uid gi q s"
      and "wpath s = a @ xs @ c @ rest" and "wpos s = length a"
      and "is_seps xs" and "ordinary_comp c" and "at_boundary rest"
  shows "with_sep (wdest (initial q)) = ''/''
       \<and> prefix (whist s @ [Lstat (with_sep (wdest s))]) (snd (access E (Inr gi) uid mode p))
       \<and> (\<forall>f0. lstat E (whist s) (with_sep (wdest s)) = Inr f0 \<and> denied uid gi Execute f0 \<longrightarrow>
             access E (Inr gi) uid mode p
             = (Inl (PermissionDenied
                      \<lparr>File = with_sep (wdest s), FileMode = Mode f0, FileUid = uint (StUid f0),
                       FileGid = uint (StGid f0), Uid = uid, Gid = gi, WantMode = Execute\<rparr>),
                whist s @ [Lstat (with_sep (wdest s))]))
       \<and> (\<forall>h fi. checkPath E (whist s) uid gi Execute (with_sep (wdest s)) = (Inr (), h)
              \<and> lstat E h (with_sep (wdest s) @ c) = Inr fi \<and> Mode fi AND ModeSymlink \<noteq> 0 \<longrightarrow>
             access E (Inr gi) uid mode p =
               (if 255 \<le> linksWalked s
                then (Inl TooManyLinks, h @ [Lstat (with_sep (wdest s) @ c)])
                else case readlink E (h @ [Lstat (with_sep (wdest s) @ c)]) (with_sep (wdest s) @ c) of
                  Inl e \<Rightarrow> (Inl (Underlying e),
                            h @ [Lstat (with_sep (wdest s) @ c), Readlink (with_sep (wdest s) @ c)])
                | Inr link \<Rightarrow>
                    walk_loop E uid gi mode 1 ''/''
                      \<lparr>wpath = link @ rest,
                       wpos = (if link \<noteq> [] \<and> IsPathSeparator (hd link) then 1 else 0),
                       wdest = (if link \<noteq> [] \<and> IsPathSeparator (hd link) then ''/'' else wdest s),
                       linksWalked = linksWalked s + 1,
                       whist = h @ [Lstat (with_sep (wdest s) @ c),
                                    Readlink (with_sep (wdest s) @ c)]\<rparr>))"
proof -
  note v = volLen_abs [OF assms(2,3)]
  note acc = access_at [OF assms(1,2,3,4)]
  let ?p = "with_sep (wdest s)"
  have pne: "?p \<noteq> []"
    using walks_to_dest_ok [OF assms(2,3,4)] by (intro with_sep_ne dest_ok_ne)
  note w = walk_at_component [OF assms(5,6,7,8,9), where E = E and uid = uid and gi = gi
             and mode = mode and volLen = 1 and vol = "''/''"]
  have 1: "with_sep (wdest (initial q)) = ''/''"
    using v by (simp add: initial_def with_sep_def IsPathSeparator_def)
  have 2: "prefix (whist s @ [Lstat ?p]) (snd (access E (Inr gi) uid mode p))"
    unfolding acc
    using checkPath_first_call [OF pne, of "whist s" E uid gi 1] w(1)
    by (meson prefix_order.trans)
  have 3: "\<forall>f0. lstat E (whist s) ?p = Inr f0 \<and> denied uid gi Execute f0 \<longrightarrow>
             access E (Inr gi) uid mode p
             = (Inl (PermissionDenied
                      \<lparr>File = ?p, FileMode = Mode f0, FileUid = uint (StUid f0),
                       FileGid = uint (StGid f0), Uid = uid, Gid = gi, WantMode = Execute\<rparr>),
                whist s @ [Lstat ?p])"
  proof (intro allI impI)
    fix f0 assume a: "lstat E (whist s) ?p = Inr f0 \<and> denied uid gi Execute f0"
    then have "checkPath E (whist s) uid gi 1 ?p
       = (Inl (PermissionDenied (mkPermissionError ?p f0 uid gi 1)), whist s @ [Lstat ?p])"
      using pne by (simp add: checkPath_denied Execute_def)
    from w(2) [OF this] show "access E (Inr gi) uid mode p
             = (Inl (PermissionDenied
                      \<lparr>File = ?p, FileMode = Mode f0, FileUid = uint (StUid f0),
                       FileGid = uint (StGid f0), Uid = uid, Gid = gi, WantMode = Execute\<rparr>),
                whist s @ [Lstat ?p])"
      unfolding acc by (simp add: mkPermissionError_def Execute_def)
  qed
  have 4: "\<forall>h fi. checkPath E (whist s) uid gi Execute ?p = (Inr (), h)
              \<and> lstat E h (?p @ c) = Inr fi \<and> Mode fi AND ModeSymlink \<noteq> 0 \<longrightarrow>
             access E (Inr gi) uid mode p =
               (if 255 \<le> linksWalked s
                then (Inl TooManyLinks, h @ [Lstat (?p @ c)])
                else case readlink E (h @ [Lstat (?p @ c)]) (?p @ c) of
                  Inl e \<Rightarrow> (Inl (Underlying e), h @ [Lstat (?p @ c), Readlink (?p @ c)])
                | Inr link \<Rightarrow>
                    walk_loop E uid gi mode 1 ''/''
                      \<lparr>wpath = link @ rest,
                       wpos = (if link \<noteq> [] \<and> IsPathSeparator (hd link) then 1 else 0),
                       wdest = (if link \<noteq> [] \<and> IsPathSeparator (hd link) then ''/'' else wdest s),
                       linksWalked = linksWalked s + 1,
                       whist = h @ [Lstat (?p @ c), Readlink (?p @ c)]\<rparr>)"
  proof (intro allI impI)
    fix h fi
    assume a: "checkPath E (whist s) uid gi Execute ?p = (Inr (), h)
              \<and> lstat E h (?p @ c) = Inr fi \<and> Mode fi AND ModeSymlink \<noteq> 0"
    then have cp: "checkPath E (whist s) uid gi 1 ?p = (Inr (), h)" by (simp add: Execute_def)
    from a have l: "lstat E h (?p @ c) = Inr fi" and k: "Mode fi AND ModeSymlink \<noteq> 0" by simp_all
    show "access E (Inr gi) uid mode p =
               (if 255 \<le> linksWalked s
                then (Inl TooManyLinks, h @ [Lstat (?p @ c)])
                else case readlink E (h @ [Lstat (?p @ c)]) (?p @ c) of
                  Inl e \<Rightarrow> (Inl (Underlying e), h @ [Lstat (?p @ c), Readlink (?p @ c)])
                | Inr link \<Rightarrow>
                    walk_loop E uid gi mode 1 ''/''
                      \<lparr>wpath = link @ rest,
                       wpos = (if link \<noteq> [] \<and> IsPathSeparator (hd link) then 1 else 0),
                       wdest = (if link \<noteq> [] \<and> IsPathSeparator (hd link) then ''/'' else wdest s),
                       linksWalked = linksWalked s + 1,
                       whist = h @ [Lstat (?p @ c), Readlink (?p @ c)]\<rparr>)"
      unfolding acc by (rule walk_at_link [OF assms(2,3,4,5,6,7,8,9) cp l k])
  qed
  from 1 2 3 4 show ?thesis by blast
qed

text \<open>
  uid 1000 is refused at a root it cannot enter, before \<open>/home\<close> is looked at; and it
  goes through \<open>/old\<close>, a link with mode 0.
\<close>

theorem component_check_witness:
  "access env_locked (Inr [1000]) 1000 Read ''/home''
     = (Inl (PermissionDenied
              \<lparr>File = ''/'', FileMode = ModeDir OR 448, FileUid = 0, FileGid = 0,
               Uid = 1000, Gid = [1000], WantMode = Execute\<rparr>),
        [Lstat ''/''])
   \<and> access env_links (Inr [1000]) 1000 Read ''/old''
     = walk_loop env_links 1000 [1000] Read 1 ''/''
         \<lparr>wpath = ''/data/v2'', wpos = 1, wdest = ''/'', linksWalked = 1,
          whist = [Lstat ''/'', Lstat ''/old'', Readlink ''/old'']\<rparr>"
proof -
  have k: "is_seps []" "ordinary_comp ''home''" "ordinary_comp ''old''" "at_boundary []"
    by (simp_all add: is_seps_def ordinary_comp_def no_sep_def at_boundary_def IsPathSeparator_def)
  have ws: "with_sep ''/'' = ''/''" by (simp add: with_sep_def IsPathSeparator_def)
  have first: "access env_locked (Inr [1000]) 1000 Read ''/home''
     = (Inl (PermissionDenied
              \<lparr>File = ''/'', FileMode = ModeDir OR 448, FileUid = 0, FileGid = 0,
               Uid = 1000, Gid = [1000], WantMode = Execute\<rparr>),
        [Lstat ''/''])"
  proof -
    let ?q = "''/home''"
    have v: "volLen_of ?q = 1" "take 1 ?q = ''/''"
      by (simp_all add: volLen_of_def IsPathSeparator_def)
    have a: "Abs env_locked ?q = Inr ?q" by (simp add: env_locked_def)
    have q: "?q \<noteq> []" "IsPathSeparator (hd ?q)" by (simp_all add: IsPathSeparator_def)
    have w: "walks_to env_locked 1000 [1000] ?q (initial ?q)"
      unfolding walks_to_def by (rule reaches_refl)
    have p: "wpath (initial ?q) = ''/'' @ [] @ ''home'' @ []" "wpos (initial ?q) = length ''/''"
      by (simp_all add: initial_def v)
    have l: "lstat env_locked (whist (initial ?q)) (with_sep (wdest (initial ?q)))
             = Inr (a_dir 448 0 0)"
      by (simp add: initial_def v ws env_locked_def fs_locked_def fs_of_def)
    have d: "denied 1000 [1000] Execute (a_dir 448 0 0)" by code_simp
    from component_check [OF a q w p k(1,2,4), of Read, THEN conjunct2, THEN conjunct2,
                          THEN conjunct1, rule_format, of "a_dir 448 0 0"] l d
    show ?thesis by (simp add: initial_def v ws a_dir_def)
  qed
  have second: "access env_links (Inr [1000]) 1000 Read ''/old''
     = walk_loop env_links 1000 [1000] Read 1 ''/''
         \<lparr>wpath = ''/data/v2'', wpos = 1, wdest = ''/'', linksWalked = 1,
          whist = [Lstat ''/'', Lstat ''/old'', Readlink ''/old'']\<rparr>"
  proof -
    let ?q = "''/old''"
    have v: "volLen_of ?q = 1" "take 1 ?q = ''/''"
      by (simp_all add: volLen_of_def IsPathSeparator_def)
    have a: "Abs env_links ?q = Inr ?q" by (simp add: env_links_def)
    have q: "?q \<noteq> []" "IsPathSeparator (hd ?q)" by (simp_all add: IsPathSeparator_def)
    have w: "walks_to env_links 1000 [1000] ?q (initial ?q)"
      unfolding walks_to_def by (rule reaches_refl)
    have p: "wpath (initial ?q) = ''/'' @ [] @ ''old'' @ []" "wpos (initial ?q) = length ''/''"
      by (simp_all add: initial_def v)
    have c: "checkPath env_links (whist (initial ?q)) 1000 [1000] Execute
               (with_sep (wdest (initial ?q))) = (Inr (), [Lstat ''/''])"
      by code_simp
    have l: "lstat env_links [Lstat ''/''] (with_sep (wdest (initial ?q)) @ ''old'')
             = Inr (a_link 0 0 0)"
      by code_simp
    have m: "Mode (a_link 0 0 0) AND ModeSymlink \<noteq> 0" by code_simp
    have r: "readlink env_links [Lstat ''/'', Lstat ''/old''] ''/old'' = Inr ''/data/v2''"
      by code_simp
    from component_check [OF a q w p k(1,3,4), of Read, THEN conjunct2, THEN conjunct2,
                          THEN conjunct2, rule_format, of "[Lstat ''/'']" "a_link 0 0 0"] c l m r
    show ?thesis by (simp add: initial_def v ws IsPathSeparator_def)
  qed
  from first second show ?thesis by blast
qed

text \<open>
  C3 as it was stated says that the first component is checked on its own metadata, that
  a link gets an execute check and that the root is never checked. The root is checked
  here, and nothing else is; and the link \<open>/old\<close>, which gives nobody Execute, is
  followed to the end.
\<close>

theorem component_check_counterexample:
  "access env_locked (Inr [1000]) 1000 Read ''/home''
     = (Inl (PermissionDenied
              \<lparr>File = ''/'', FileMode = ModeDir OR 448, FileUid = 0, FileGid = 0,
               Uid = 1000, Gid = [1000], WantMode = Execute\<rparr>),
        [Lstat ''/''])
   \<and> fs_links ''/old'' = Inr (a_link 0 0 0)
   \<and> denied 1000 [1000] Execute (a_link 0 0 0)
   \<and> access env_links (Inr [1000]) 1000 Read ''/old''
     = (Inr (),
        [Lstat ''/'', Lstat ''/old'', Readlink ''/old'', Lstat ''/'', Lstat ''/data'',
         Lstat ''/data/'', Lstat ''/data'', Lstat ''/data/v2'', Lstat ''/data/v2'',
         Lstat ''/data''])"
  by code_simp

end
